theory Spec2Isabelle
  imports Main "HOL-Library.Sublist"
begin

section \<open>JavaScript strings\<close>

text \<open>
  A JavaScript string is a sequence of UTF-16 code units. The client code compares
  strings with the bullet character U+2022 and strips Unicode white space, so a string is
  modelled as the list of its code units (natural numbers), and a literal of the source is
  written \<open>js ''...''\<close>.
\<close>

type_synonym jsstr = "nat list"

definition js :: "string \<Rightarrow> jsstr" where
  "js s = map of_char s"

text \<open>\<^verbatim>\<open>s.startsWith(p)\<close>\<close>

definition startsWith :: "jsstr \<Rightarrow> jsstr \<Rightarrow> bool" where
  "startsWith s p = prefix p s"

text \<open>\<^verbatim>\<open>s.includes(p)\<close>: \<open>p\<close> occurs at some position of \<open>s\<close>.\<close>

fun js_includes :: "jsstr \<Rightarrow> jsstr \<Rightarrow> bool" where
  "js_includes [] p = (p = [])"
| "js_includes (c # cs) p = (prefix p (c # cs) \<or> js_includes cs p)"

text \<open>
  \<^verbatim>\<open>s.replace(pat, rep)\<close> with a string pattern: the first occurrence of \<open>pat\<close> is
  replaced, the rest of the string is kept.
\<close>

fun replaceFirst :: "jsstr \<Rightarrow> jsstr \<Rightarrow> jsstr \<Rightarrow> jsstr" where
  "replaceFirst pat rep [] = (if pat = [] then rep else [])"
| "replaceFirst pat rep (c # cs) =
     (if prefix pat (c # cs) then rep @ drop (length pat) (c # cs)
      else c # replaceFirst pat rep cs)"

text \<open>
  Truthiness of an optional string (\<open>None\<close> is \<^verbatim>\<open>undefined\<close>): only a non-empty string
  is truthy. \<open>orElse a b\<close> is \<^verbatim>\<open>a || b\<close> with a string on the right.
\<close>

definition truthy :: "jsstr option \<Rightarrow> bool" where
  "truthy v = (case v of None \<Rightarrow> False | Some s \<Rightarrow> s \<noteq> [])"

definition orElse :: "jsstr option \<Rightarrow> jsstr \<Rightarrow> jsstr" where
  "orElse v d = (case v of None \<Rightarrow> d | Some s \<Rightarrow> if s \<noteq> [] then s else d)"

section \<open>Messages and parts (the client's data model)\<close>

text \<open>
  \<^verbatim>\<open>interface SourceInfo { url: string; title: string }\<close> of \<^verbatim>\<open>page.tsx\<close>.
\<close>

record SourceInfo =
  url :: jsstr
  title :: jsstr

text \<open>
  One search result inside a tool output: the code reads its \<^verbatim>\<open>url\<close> and \<^verbatim>\<open>title\<close>,
  either of which may be absent.
\<close>

record result =
  url :: "jsstr option"
  title :: "jsstr option"

text \<open>
  The shapes of \<^verbatim>\<open>part.output\<close> that \<^verbatim>\<open>extractSourcesFromMessage\<close> tells apart: an
  object whose \<^verbatim>\<open>results\<close> is an array, an array, any other object (read for
  \<^verbatim>\<open>url\<close> and \<^verbatim>\<open>title\<close>), and a string (what the three sub-agent tools return).
\<close>

datatype tooloutput =
    OutResults "result list"
  | OutArray "result list"
  | OutObject result
  | OutText jsstr

text \<open>
  \<^verbatim>\<open>toolCall.toolCall?.args\<close>: the arguments object read by the search-log effect.
\<close>

record toolargs =
  query :: "jsstr option"
  reason :: "jsstr option"

text \<open>
  A message part, with the properties the client reads. \<open>None\<close> is an absent property.
  \<open>args\<close> stands for \<^verbatim>\<open>part.toolCall?.args\<close> (absent when either link of the chain is
  absent).
\<close>

record part =
  type :: jsstr
  state :: "jsstr option"
  "text" :: jsstr
  url :: "jsstr option"
  title :: "jsstr option"
  "output" :: "tooloutput option"
  args :: "toolargs option"
  query :: "jsstr option"

record message =
  msg_id :: jsstr
  role :: jsstr
  parts :: "part list"

text \<open>A part with every optional property absent, to build examples from.\<close>

definition blankPart :: part where
  "blankPart = \<lparr>type = [], state = None, text = [], url = None, title = None,
     output = None, args = None, query = None\<rparr>"

definition toolPart :: "string \<Rightarrow> string \<Rightarrow> part" where
  "toolPart name st = blankPart\<lparr>type := js ''tool-'' @ js name, state := Some (js st)\<rparr>"

definition textPart :: "jsstr \<Rightarrow> part" where
  "textPart t = blankPart\<lparr>type := js ''text'', text := t\<rparr>"

section \<open>Current tool activity (\<^verbatim>\<open>getCurrentToolActivity\<close>, page.tsx)\<close>

text \<open>The chain of conditionals that maps a tool part to its label.\<close>

definition displayName :: "part \<Rightarrow> jsstr" where
  "displayName p =
     (let toolName = replaceFirst (js ''tool-'') [] (type p) in
      if toolName = js ''tavilySearch'' then js ''Searching web''
      else if toolName = js ''factCheck'' then js ''Fact-checking''
      else if toolName = js ''summarize'' then js ''Summarizing''
      else if toolName = js ''findRandomTangents'' then js ''Finding tangents''
      else toolName)"

text \<open>The predicate of the \<^verbatim>\<open>filter\<close> call that selects \<^verbatim>\<open>activeToolParts\<close>.\<close>

definition activeToolPart :: "part \<Rightarrow> bool" where
  "activeToolPart p =
     (startsWith (type p) (js ''tool-'') \<and>
      (state p = Some (js ''input-available'') \<or>
       state p = Some (js ''input-streaming'') \<or>
       state p = Some (js ''output-available'')))"

text \<open>The body of the \<^verbatim>\<open>forEach\<close>: what one active part pushes onto \<^verbatim>\<open>activities\<close>.\<close>

definition pushActivity :: "part \<Rightarrow> jsstr list" where
  "pushActivity p =
     (if state p = Some (js ''input-available'') \<or> state p = Some (js ''input-streaming'')
      then [displayName p] else [])"

definition getCurrentToolActivity :: "message list \<Rightarrow> jsstr list" where
  "getCurrentToolActivity messages =
     (if length messages = 0 then []
      else
        let lastMessage = messages ! (length messages - 1);
            activeToolParts = filter activeToolPart (parts lastMessage)
        in concat (map pushActivity activeToolParts))"

text \<open>
  The reading of the specification: a part is in flight when it is a tool part whose state
  is \<^verbatim>\<open>input-streaming\<close> or \<^verbatim>\<open>input-available\<close>; the tool name is the part type without
  its \<^verbatim>\<open>tool-\<close> prefix; the label is given by a table with a pass-through default.
\<close>

definition spec_inFlight :: "part \<Rightarrow> bool" where
  "spec_inFlight p =
     (prefix (js ''tool-'') (type p) \<and>
      state p \<in> {Some (js ''input-streaming''), Some (js ''input-available'')})"

definition spec_label :: "jsstr \<Rightarrow> jsstr" where
  "spec_label toolName =
     (case map_of
        [(js ''tavilySearch'', js ''Searching web''),
         (js ''factCheck'', js ''Fact-checking''),
         (js ''summarize'', js ''Summarizing''),
         (js ''findRandomTangents'', js ''Finding tangents'')] toolName
      of Some l \<Rightarrow> l | None \<Rightarrow> toolName)"

section \<open>Source extraction (\<^verbatim>\<open>extractSourcesFromMessage\<close>, page.tsx)\<close>






section \<open>Agents and their tools (app/agents)\<close>

text \<open>
  The configuration object handed to \<^verbatim>\<open>new ToolLoopAgent\<close>: the model name, the names of
  the tools, and the step budget \<open>n\<close> of \<^verbatim>\<open>stopWhen: stepCountIs(n)\<close>. The prompt text
  (\<^verbatim>\<open>instructions\<close>) plays no part in the control flow and is left out.
\<close>

record agent =
  model :: jsstr
  tools :: "jsstr list"
  stopWhen :: nat

text \<open>
  Modelled from the spec: \<^verbatim>\<open>stepCountIs(n)\<close> of the \<^verbatim>\<open>ai\<close> package (not under src/),
  the stop condition of a step budget of \<open>n\<close>, stands for that budget.
\<close>

definition stepCountIs :: "nat \<Rightarrow> nat" where
  "stepCountIs n = n"

definition createChatAgent :: agent where
  "createChatAgent =
     \<lparr>model = js ''gpt-5'',
      tools = [js ''tavilySearch'', js ''findRandomTangents'', js ''factCheck'',
               js ''summarize''],
      stopWhen = stepCountIs 15\<rparr>"

definition factCheckerAgent :: agent where
  "factCheckerAgent = \<lparr>model = js ''gpt-5-mini'', tools = [], stopWhen = stepCountIs 5\<rparr>"

definition summarizerAgent :: agent where
  "summarizerAgent = \<lparr>model = js ''gpt-5'', tools = [], stopWhen = stepCountIs 5\<rparr>"

definition randomTangentsAgent :: agent where
  "randomTangentsAgent =
     \<lparr>model = js ''gpt-5'', tools = [js ''tavilySearch''], stopWhen = stepCountIs 5\<rparr>"

text \<open>
  An \<^verbatim>\<open>AbortSignal\<close> is an object; two signals are the same when they are the same object,
  which the number stands for.
\<close>

datatype AbortSignal = AbortSignal nat

text \<open>The options of \<^verbatim>\<open>agent.generate({ prompt, abortSignal })\<close>.\<close>

record generateOptions =
  prompt :: jsstr
  abortSignal :: "AbortSignal option"

text \<open>The second argument of a tool's \<^verbatim>\<open>execute\<close>, of which the code reads the signal.\<close>

record toolContext =
  abortSignal :: "AbortSignal option"

text \<open>
  A call of \<^verbatim>\<open>generate\<close> on a sub-agent. An \<^verbatim>\<open>execute\<close> function returns the calls it
  made together with its result, \<^verbatim>\<open>result.text\<close> of the call, which the parameter
  \<open>generate\<close> supplies (the language model is outside the program).
\<close>

type_synonym generateCall = "agent \<times> generateOptions"

definition factCheckTool_execute ::
  "(generateCall \<Rightarrow> jsstr) \<Rightarrow> jsstr \<Rightarrow> toolContext \<Rightarrow> generateCall list \<times> jsstr" where
  "factCheckTool_execute generate researchNotes ctx =
     (let call = (factCheckerAgent,
            \<lparr>prompt = js ''Please fact-check the following research notes:\<newline>\<newline>'' @
               researchNotes,
             abortSignal = toolContext.abortSignal ctx\<rparr>)
      in ([call], generate call))"

definition summarizeTool_execute ::
  "(generateCall \<Rightarrow> jsstr) \<Rightarrow> jsstr \<Rightarrow> jsstr option \<Rightarrow> toolContext
     \<Rightarrow> generateCall list \<times> jsstr" where
  "summarizeTool_execute generate factCheckedFindings originalQuestion ctx =
     (let prompt =
        (case originalQuestion of
           None \<Rightarrow>
             js ''Fact-checked findings:\<newline>'' @ factCheckedFindings @
             js ''\<newline>\<newline>Please create a summary using only verified claims.''
         | Some q \<Rightarrow>
             if q \<noteq> [] then
               js ''Original question: '' @ q @
               js ''\<newline>\<newline>Fact-checked findings:\<newline>'' @ factCheckedFindings @
               js ''\<newline>\<newline>Please create a summary using only verified claims.''
             else
               js ''Fact-checked findings:\<newline>'' @ factCheckedFindings @
               js ''\<newline>\<newline>Please create a summary using only verified claims.'');
        call = (summarizerAgent,
            \<lparr>prompt = prompt, abortSignal = toolContext.abortSignal ctx\<rparr>)
      in ([call], generate call))"

definition findRandomTangentsTool_execute ::
  "(generateCall \<Rightarrow> jsstr) \<Rightarrow> jsstr \<Rightarrow> jsstr \<Rightarrow> toolContext
     \<Rightarrow> generateCall list \<times> jsstr" where
  "findRandomTangentsTool_execute generate mainTopic researchNotes ctx =
     (let prompt =
        js ''Main topic: '' @ mainTopic @
        js ''\<newline>\<newline>Research notes:\<newline>'' @ researchNotes @
        js (''\<newline>\<newline>Please find interesting tangents - facts that are kind of '' @
            ''related but off-subject. Use tavilySearch to discover fascinating side '' @
            ''topics and write about them enthusiastically!'');
        call = (randomTangentsAgent,
            \<lparr>prompt = prompt, abortSignal = toolContext.abortSignal ctx\<rparr>)
      in ([call], generate call))"

section \<open>The turn-submission endpoint (\<^verbatim>\<open>POST\<close>, app/api/chat/route.ts)\<close>

text \<open>A thrown \<^verbatim>\<open>Error\<close>, of which the handler reads \<^verbatim>\<open>message\<close>.\<close>

record Error =
  message :: jsstr

text \<open>
  The request, by what \<^verbatim>\<open>const { messages } = await req.json()\<close> does with it: it throws
  (\<open>Inl\<close>: a body that is not JSON, or not an object) or yields the messages.
\<close>

record Request =
  json :: "Error + message list"

text \<open>The second argument of \<^verbatim>\<open>new Response(body, init)\<close>.\<close>

record ResponseInit =
  status :: nat
  headers :: "(jsstr \<times> jsstr) list"

text \<open>
  The response: what \<^verbatim>\<open>createAgentUIStreamResponse({ agent, uiMessages })\<close> returns (the
  stream, built outside the program), or
  \<^verbatim>\<open>new Response(JSON.stringify({ error: m }), init)\<close>, a body that is not streamed.
\<close>

datatype Response =
    AgentUIStreamResponse agent "message list"
  | JsonErrorResponse jsstr ResponseInit

text \<open>The \<^verbatim>\<open>catch\<close> block.\<close>

definition POST_catch :: "Error \<Rightarrow> Response" where
  "POST_catch error =
     JsonErrorResponse (orElse (Some (message error)) (js ''Internal server error''))
       \<lparr>status = 500, headers = [(js ''Content-Type'', js ''application/json'')]\<rparr>"

text \<open>
  The handler. Of the three statements in the \<^verbatim>\<open>try\<close> block only the awaited
  \<^verbatim>\<open>req.json()\<close> (with the destructuring of its result) can throw into the \<^verbatim>\<open>catch\<close>.
\<close>

definition POST :: "Request \<Rightarrow> Response" where
  "POST req =
     (case json req of
        Inl error \<Rightarrow> POST_catch error
      | Inr messages \<Rightarrow>
          let agent = createChatAgent in AgentUIStreamResponse agent messages)"

section \<open>Tool input schemas (\<^verbatim>\<open>inputSchema\<close> of the three tools)\<close>

text \<open>The JSON value a model sends as the input of a tool call.\<close>

datatype json =
    JNull
  | JBool bool
  | JNum int
  | JStr jsstr
  | JArr "json list"
  | JObj "(jsstr \<times> json) list"

text \<open>
  The two field schemas the source uses: \<^verbatim>\<open>z.string()\<close> and \<^verbatim>\<open>z.string().optional()\<close>
  (\<^verbatim>\<open>describe\<close> only attaches documentation). A \<^verbatim>\<open>z.object({...})\<close> is the list of its
  fields.
\<close>

datatype zfield = ZString | ZStringOptional

type_synonym zobject = "(jsstr \<times> zfield) list"

text \<open>
  Modelled from the spec: the validator of the \<^verbatim>\<open>zod\<close> package, which is not under src/.
  A \<^verbatim>\<open>string\<close> field requires a string; an optional one also accepts an absent key; the
  input must be an object; keys the schema does not name are dropped from the parsed value.
\<close>

fun parseFields :: "zobject \<Rightarrow> (jsstr \<times> json) list \<Rightarrow> (jsstr \<times> jsstr) list option" where
  "parseFields [] kvs = Some []"
| "parseFields ((k, f) # fs) kvs =
     (case map_of kvs k of
        Some (JStr v) \<Rightarrow> map_option ((#) (k, v)) (parseFields fs kvs)
      | Some other \<Rightarrow> None
      | None \<Rightarrow> (case f of ZStringOptional \<Rightarrow> parseFields fs kvs | ZString \<Rightarrow> None))"

text \<open>
  Modelled from the spec: \<^verbatim>\<open>safeParse\<close> of the \<^verbatim>\<open>zod\<close> package (not under src/) on an
  object schema: anything but an object is rejected.
\<close>

definition safeParse :: "zobject \<Rightarrow> json \<Rightarrow> (jsstr \<times> jsstr) list option" where
  "safeParse schema input =
     (case input of JObj kvs \<Rightarrow> parseFields schema kvs | other \<Rightarrow> None)"

text \<open>
  A tool as \<^verbatim>\<open>tool({ description, inputSchema, execute })\<close> builds it. \<open>execute\<close> receives
  the parsed input and destructures it.
\<close>

record tool =
  inputSchema :: zobject
  execute :: "(generateCall \<Rightarrow> jsstr) \<Rightarrow> (jsstr \<times> jsstr) list \<Rightarrow> toolContext
                \<Rightarrow> generateCall list \<times> jsstr"

text \<open>A required (validated) property of the parsed input.\<close>

definition getProp :: "(jsstr \<times> jsstr) list \<Rightarrow> jsstr \<Rightarrow> jsstr" where
  "getProp params k = (case map_of params k of Some v \<Rightarrow> v | None \<Rightarrow> [])"

definition factCheckTool :: tool where
  "factCheckTool =
     \<lparr>inputSchema = [(js ''researchNotes'', ZString)],
      execute = (\<lambda>generate params ctx.
        factCheckTool_execute generate (getProp params (js ''researchNotes'')) ctx)\<rparr>"

definition findRandomTangentsTool :: tool where
  "findRandomTangentsTool =
     \<lparr>inputSchema = [(js ''mainTopic'', ZString), (js ''researchNotes'', ZString)],
      execute = (\<lambda>generate params ctx.
        findRandomTangentsTool_execute generate (getProp params (js ''mainTopic''))
          (getProp params (js ''researchNotes'')) ctx)\<rparr>"

definition summarizeTool :: tool where
  "summarizeTool =
     \<lparr>inputSchema =
        [(js ''factCheckedFindings'', ZString), (js ''originalQuestion'', ZStringOptional)],
      execute = (\<lambda>generate params ctx.
        summarizeTool_execute generate (getProp params (js ''factCheckedFindings''))
          (map_of params (js ''originalQuestion'')) ctx)\<rparr>"

text \<open>
  Modelled from the spec: the error with which the \<^verbatim>\<open>ai\<close> package (not under src/)
  answers a tool call whose input the schema rejects.
\<close>

datatype toolError = InvalidToolInput

text \<open>
  Modelled from the spec: the dispatch of a tool call by the \<^verbatim>\<open>ai\<close> package, which is not
  under src/. The input is validated against the tool's schema and rejected before dispatch
  when malformed; only a valid input reaches \<^verbatim>\<open>execute\<close>.
\<close>

definition callTool ::
  "tool \<Rightarrow> (generateCall \<Rightarrow> jsstr) \<Rightarrow> json \<Rightarrow> toolContext
     \<Rightarrow> generateCall list \<times> (toolError + jsstr)" where
  "callTool t generate input ctx =
     (case safeParse (inputSchema t) input of
        None \<Rightarrow> ([], Inl InvalidToolInput)
      | Some params \<Rightarrow>
          (case execute t generate params ctx of (calls, answer) \<Rightarrow> (calls, Inr answer)))"

text \<open>
  The reading of "requires \<open>k\<close> to be a string": the key is present and bound to a string.
\<close>

definition isString :: "json option \<Rightarrow> bool" where
  "isString v = (case v of Some (JStr s) \<Rightarrow> True | other \<Rightarrow> False)"

section \<open>The bounded tool loop\<close>

text \<open>
  Modelled from the spec: how a run of the loop of \<^verbatim>\<open>ToolLoopAgent\<close> (not under src/)
  ends: with the text produced so far (a final answer and an exhausted budget are not told
  apart), by cancellation, or with the failure of a model call.
\<close>

datatype outcome = Completed jsstr | Cancelled jsstr | Failed Error

text \<open>
  Modelled from the spec: what is observed of a run, the number of model round-trips it
  made and how it ended.
\<close>

record runResult =
  roundTrips :: nat
  outcome :: outcome

text \<open>
  Modelled from the spec: the loop of \<^verbatim>\<open>ToolLoopAgent\<close> (the \<^verbatim>\<open>ai\<close> package, not under
  src/), after the sections on the step budget and on the orchestrator. A step asks the
  model (\<open>askModel\<close>, which may fail) for text and tool calls, runs every tool call
  (\<open>runTool\<close>: a tool failure is a result like any other), appends the results to the
  history (\<open>addResults\<close>) and decrements the counter \<open>remaining\<close>. The loop stops when the
  response has no tool call or the counter reaches zero, both with the text so far; the
  abort signal (\<open>aborted\<close>, by step number) is looked at before a step starts; the failure
  of a model call ends the turn. \<open>count\<close> is the number of model calls made so far.
\<close>

function toolLoop ::
  "('h \<Rightarrow> Error + jsstr \<times> 'c list) \<Rightarrow> ('c \<Rightarrow> 'r) \<Rightarrow> ('h \<Rightarrow> jsstr \<Rightarrow> ('c \<times> 'r) list \<Rightarrow> 'h)
     \<Rightarrow> (nat \<Rightarrow> bool) \<Rightarrow> nat \<Rightarrow> nat \<Rightarrow> jsstr \<Rightarrow> 'h \<Rightarrow> runResult" where
  "toolLoop askModel runTool addResults aborted remaining count sofar history =
     (if aborted count then \<lparr>roundTrips = count, outcome = Cancelled sofar\<rparr>
      else
        case askModel history of
          Inl e \<Rightarrow> \<lparr>roundTrips = count + 1, outcome = Failed e\<rparr>
        | Inr (t, calls) \<Rightarrow>
            if calls = [] \<or> remaining - 1 = 0
            then \<lparr>roundTrips = count + 1, outcome = Completed (sofar @ t)\<rparr>
            else toolLoop askModel runTool addResults aborted (remaining - 1) (count + 1) (sofar @ t)
                   (addResults history t (map (\<lambda>c. (c, runTool c)) calls)))"
  by pat_completeness auto
termination
  by (relation "measure (\<lambda>(askModel, runTool, addResults, aborted, remaining, rest). remaining)") auto

text \<open>
  Modelled from the spec: a run of an agent (\<^verbatim>\<open>generate\<close> or \<^verbatim>\<open>stream\<close> of
  \<^verbatim>\<open>ToolLoopAgent\<close>, not under src/) is the loop with the agent's step budget, from step
  count zero and with no text yet.
\<close>

definition runAgent ::
  "agent \<Rightarrow> ('h \<Rightarrow> Error + jsstr \<times> 'c list) \<Rightarrow> ('c \<Rightarrow> 'r) \<Rightarrow> ('h \<Rightarrow> jsstr \<Rightarrow> ('c \<times> 'r) list \<Rightarrow> 'h)
     \<Rightarrow> (nat \<Rightarrow> bool) \<Rightarrow> 'h \<Rightarrow> runResult" where
  "runAgent a askModel runTool addResults aborted history =
     toolLoop askModel runTool addResults aborted (stopWhen a) 0 [] history"

section \<open>String helpers of the text-parsing effect\<close>

text \<open>
  White space as \<^verbatim>\<open>trim\<close> and the regular expression class \<^verbatim>\<open>\s\<close> see it: the
  ECMAScript white space and line terminator code units.
\<close>

definition isSpace :: "nat \<Rightarrow> bool" where
  "isSpace c =
     (c \<in> {9, 10, 11, 12, 13, 32, 160, 5760, 8232, 8233, 8239, 8287, 12288, 65279} \<or>
      (8192 \<le> c \<and> c \<le> 8202))"

definition trim :: "jsstr \<Rightarrow> jsstr" where
  "trim s = rev (dropWhile isSpace (rev (dropWhile isSpace s)))"

text \<open>
  \<^verbatim>\<open>s.split(sep)\<close> for a separator that matches one code unit (\<^verbatim>\<open>"\n"\<close>, or the class
  \<^verbatim>\<open>/[-:]/\<close>): the pieces between the separators, one piece for a string without any.
\<close>

fun splitWhere :: "(nat \<Rightarrow> bool) \<Rightarrow> jsstr \<Rightarrow> jsstr list" where
  "splitWhere sep [] = [[]]"
| "splitWhere sep (c # cs) =
     (if sep c then [] # splitWhere sep cs
      else (case splitWhere sep cs of
              piece # pieces \<Rightarrow> (c # piece) # pieces
            | [] \<Rightarrow> [[c]]))"

text \<open>\<^verbatim>\<open>pieces.join(sep)\<close>\<close>

fun join :: "jsstr \<Rightarrow> jsstr list \<Rightarrow> jsstr" where
  "join sep [] = []"
| "join sep [p] = p"
| "join sep (p # q # ps) = p @ sep @ join sep (q # ps)"

section \<open>The two section patterns\<close>

text \<open>
  The effect matches the text against
  \<^verbatim>\<open>/Probably irrelevant but interesting[:\-]?\s*([\s\S]+?)(?=\n\n|\nSearches|$)/\<close> and
  \<^verbatim>\<open>/Searches I ran[:\-]?\s*([\s\S]+?)(?=\n\n|$)/\<close>. Both have the shape
  header, optional colon or dash, white space, a lazy group of at least one code unit, and
  a look-ahead for one of the stop strings or the end of the text. The functions below
  follow the backtracking matcher construct by construct and return the captured group.

  The look-ahead: one of the stop strings comes next, or the text ends.
\<close>

definition lookahead :: "jsstr list \<Rightarrow> jsstr \<Rightarrow> bool" where
  "lookahead stops rest = (list_ex (\<lambda>stop. prefix stop rest) stops \<or> rest = [])"

text \<open>
  The lazy group \<^verbatim>\<open>([\s\S]+?)\<close> followed by the look-ahead: it takes one code unit, then
  grows one code unit at a time until the look-ahead holds (at the latest at the end).
\<close>

fun lazyGroup :: "jsstr list \<Rightarrow> jsstr \<Rightarrow> jsstr" where
  "lazyGroup stops [] = []"
| "lazyGroup stops (c # cs) = (if lookahead stops cs then [c] else c # lazyGroup stops cs)"

text \<open>
  The greedy \<^verbatim>\<open>\s*\<close> in front of the group, having taken \<open>k\<close> code units of \<open>r\<close>: the
  group needs a code unit after them; when there is none the matcher backtracks to
  \<open>k - 1\<close>, and fails after \<open>k = 0\<close>.
\<close>

fun starSpace :: "jsstr list \<Rightarrow> jsstr \<Rightarrow> nat \<Rightarrow> jsstr option" where
  "starSpace stops r 0 = (if r \<noteq> [] then Some (lazyGroup stops r) else None)"
| "starSpace stops r (Suc k) =
     (if drop (Suc k) r \<noteq> [] then Some (lazyGroup stops (drop (Suc k) r))
      else starSpace stops r k)"

text \<open>\<^verbatim>\<open>\s*\<close> starts with the longest run of white space.\<close>

definition afterOptional :: "jsstr list \<Rightarrow> jsstr \<Rightarrow> jsstr option" where
  "afterOptional stops r = starSpace stops r (length (takeWhile isSpace r))"

text \<open>
  What follows the header: the greedy \<^verbatim>\<open>[:\-]?\<close> first takes a colon (58) or a dash (45)
  when there is one, and gives it back when the rest of the pattern fails with it.
\<close>

definition matchAt :: "jsstr list \<Rightarrow> jsstr \<Rightarrow> jsstr option" where
  "matchAt stops r =
     (case r of
        [] \<Rightarrow> None
      | c # cs \<Rightarrow>
          if c = 58 \<or> c = 45 then
            (case afterOptional stops cs of
               Some g \<Rightarrow> Some g
             | None \<Rightarrow> afterOptional stops r)
          else afterOptional stops r)"

text \<open>
  \<^verbatim>\<open>text.match(pattern)\<close> without the global flag: the match at the leftmost position of
  the text where the pattern matches; the result is the group \<^verbatim>\<open>match[1]\<close>, or \<open>None\<close> for
  \<^verbatim>\<open>null\<close>.
\<close>

fun matchSection :: "jsstr \<Rightarrow> jsstr list \<Rightarrow> jsstr \<Rightarrow> jsstr option" where
  "matchSection header stops [] = None"
| "matchSection header stops (c # cs) =
     (case (if prefix header (c # cs) then matchAt stops (drop (length header) (c # cs))
            else None) of
        Some g \<Rightarrow> Some g
      | None \<Rightarrow> matchSection header stops cs)"

text \<open>
  The bulleted lines of a captured section:
  \<^verbatim>\<open>.split("\n").filter(startsWith "-" or bullet, after trim)\<close>
  \<^verbatim>\<open>.map(line.replace(/^[-bullet]\s*/, "").trim()).filter(length > 0)\<close>. The dash is code
  unit 45 and the bullet U+2022 is 8226. The \<^verbatim>\<open>replace\<close> is anchored at the start of the
  line as it is, before trimming.
\<close>

definition isBulletLine :: "jsstr \<Rightarrow> bool" where
  "isBulletLine line = (startsWith (trim line) [45] \<or> startsWith (trim line) [8226])"

definition stripBullet :: "jsstr \<Rightarrow> jsstr" where
  "stripBullet line =
     (case line of
        [] \<Rightarrow> []
      | c # cs \<Rightarrow> if c = 45 \<or> c = 8226 then dropWhile isSpace cs else line)"

definition bulletLines :: "jsstr \<Rightarrow> jsstr list" where
  "bulletLines sec =
     filter (\<lambda>line. length line > 0)
       (map (\<lambda>line. trim (stripBullet line))
          (filter isBulletLine (splitWhere (\<lambda>c. c = 10) sec)))"

section \<open>Counting tangent mentions\<close>

text \<open>
  \<^verbatim>\<open>text.match(/got distracted|side quest|tangent/gi)\<close>. With the \<^verbatim>\<open>i\<close> flag two code
  units match when they canonicalize to the same one; the pattern is ASCII, and no code
  unit outside ASCII canonicalizes into ASCII, so only the letters a to z are folded.
\<close>

definition canonicalize :: "nat \<Rightarrow> nat" where
  "canonicalize c = (if 97 \<le> c \<and> c \<le> 122 then c - 32 else c)"

fun matchesIgnoreCase :: "jsstr \<Rightarrow> jsstr \<Rightarrow> bool" where
  "matchesIgnoreCase [] s = True"
| "matchesIgnoreCase (p # ps) [] = False"
| "matchesIgnoreCase (p # ps) (c # cs) =
     (canonicalize p = canonicalize c \<and> matchesIgnoreCase ps cs)"

text \<open>The alternation at one position: the length of the first alternative that matches.\<close>

definition mentionAt :: "jsstr \<Rightarrow> nat option" where
  "mentionAt s =
     (if matchesIgnoreCase (js ''got distracted'') s then Some (length (js ''got distracted''))
      else if matchesIgnoreCase (js ''side quest'') s then Some (length (js ''side quest''))
      else if matchesIgnoreCase (js ''tangent'') s then Some (length (js ''tangent''))
      else None)"

text \<open>
  The number of matches of the global search: after a match the search goes on behind it,
  otherwise at the next position.
\<close>

function tangentMentions :: "jsstr \<Rightarrow> nat" where
  "tangentMentions [] = 0"
| "tangentMentions (c # cs) =
     (case mentionAt (c # cs) of
        Some n \<Rightarrow> 1 + tangentMentions (drop n (c # cs))
      | None \<Rightarrow> tangentMentions cs)"
  by pat_completeness auto
termination
  by (relation "measure length") (auto simp: mentionAt_def js_def split: if_splits)

section \<open>The side-quest counter and the search log (the parsing effect of \<^verbatim>\<open>Chat\<close>)\<close>

record SearchLogEntry =
  query :: jsstr
  reason :: jsstr
  timestamp :: nat

text \<open>The two pieces of React state the effect updates.\<close>

record uiState =
  sideQuestCount :: nat
  searchLog :: "SearchLogEntry list"

text \<open>
  The updater passed to \<^verbatim>\<open>setSearchLog\<close> for a query with a reason, the same in the
  tool-call path and in the text path; \<open>now\<close> is the value of \<^verbatim>\<open>new Date()\<close>.
\<close>

definition addSearchLog ::
  "nat \<Rightarrow> jsstr \<Rightarrow> jsstr \<Rightarrow> SearchLogEntry list \<Rightarrow> SearchLogEntry list" where
  "addSearchLog now q r prev =
     (if list_ex (\<lambda>entry. SearchLogEntry.query entry = q \<and> SearchLogEntry.reason entry = r) prev
      then prev
      else prev @ [\<lparr>SearchLogEntry.query = q, reason = r, timestamp = now\<rparr>])"

text \<open>
  The updater for a line with a query and no reason. Its test is
  \<^verbatim>\<open>entry.query === parts[0] && !entry.reason\<close>, and \<^verbatim>\<open>!entry.reason\<close> holds for the empty
  string only.
\<close>

definition addQueryOnly :: "nat \<Rightarrow> jsstr \<Rightarrow> SearchLogEntry list \<Rightarrow> SearchLogEntry list" where
  "addQueryOnly now q prev =
     (if list_ex (\<lambda>entry. SearchLogEntry.query entry = q \<and> SearchLogEntry.reason entry = []) prev
      then prev
      else prev @ [\<lparr>SearchLogEntry.query = q, reason = js ''No reason provided'',
                    timestamp = now\<rparr>])"

text \<open>\<^verbatim>\<open>line.split(/[-:]/).map((p) => p.trim())\<close>\<close>

definition lineParts :: "jsstr \<Rightarrow> jsstr list" where
  "lineParts line = map trim (splitWhere (\<lambda>c. c = 45 \<or> c = 58) line)"

text \<open>The body of \<^verbatim>\<open>searchLines.forEach\<close>.\<close>

definition logLine :: "nat \<Rightarrow> jsstr \<Rightarrow> SearchLogEntry list \<Rightarrow> SearchLogEntry list" where
  "logLine now line prev =
     (let parts = lineParts line in
      if length parts \<ge> 2 then
        addSearchLog now (hd parts) (join (js '' - '') (drop 1 parts)) prev
      else if length parts = 1 \<and> hd parts \<noteq> [] then addQueryOnly now (hd parts) prev
      else prev)"

text \<open>The first block of the text branch: the section "Probably irrelevant but interesting".\<close>

definition sideQuestStep :: "jsstr \<Rightarrow> uiState \<Rightarrow> uiState" where
  "sideQuestStep t st =
     (if js_includes t (js ''Probably irrelevant but interesting'') then
        (case matchSection (js ''Probably irrelevant but interesting'')
                [js ''\<newline>\<newline>'', js ''\<newline>Searches''] t of
           None \<Rightarrow> st
         | Some g \<Rightarrow> st\<lparr>sideQuestCount := sideQuestCount st + length (bulletLines g)\<rparr>)
      else st)"

text \<open>The second block: tangent mentions, guarded by three case-sensitive \<^verbatim>\<open>includes\<close>.\<close>

definition mentionGuard :: "jsstr \<Rightarrow> bool" where
  "mentionGuard t =
     (js_includes t (js ''got distracted'') \<or> js_includes t (js ''side quest'') \<or>
      js_includes t (js ''tangent''))"

definition mentionStep :: "jsstr \<Rightarrow> uiState \<Rightarrow> uiState" where
  "mentionStep t st =
     (if mentionGuard t
      then st\<lparr>sideQuestCount := sideQuestCount st + min (tangentMentions t) 2\<rparr>
      else st)"

text \<open>The third block: the section "Searches I ran".\<close>

definition searchesStep :: "nat \<Rightarrow> jsstr \<Rightarrow> uiState \<Rightarrow> uiState" where
  "searchesStep now t st =
     (if js_includes t (js ''Searches I ran'') then
        (case matchSection (js ''Searches I ran'') [js ''\<newline>\<newline>''] t of
           None \<Rightarrow> st
         | Some g \<Rightarrow>
             st\<lparr>searchLog := foldl (\<lambda>prev line. logLine now line prev) (searchLog st)
                                (bulletLines g)\<rparr>)
      else st)"

text \<open>What a text part does to the state: the three blocks in the order of the source.\<close>

definition processText :: "nat \<Rightarrow> jsstr \<Rightarrow> uiState \<Rightarrow> uiState" where
  "processText now t st = searchesStep now t (mentionStep t (sideQuestStep t st))"

text \<open>
  \<^verbatim>\<open>toLowerCase\<close>, used on the query and the reason of a search tool call. Only A to Z is
  mapped; the lower-case forms of other code units are not modelled.
\<close>

definition toLowerCase :: "jsstr \<Rightarrow> jsstr" where
  "toLowerCase s = map (\<lambda>c. if 65 \<le> c \<and> c \<le> 90 then c + 32 else c) s"

text \<open>
  \<^verbatim>\<open>toolCall.toolCall?.args?.query || toolCall.query || "Unknown query"\<close> and
  \<^verbatim>\<open>toolCall.toolCall?.args?.reason || "Research query"\<close>.
\<close>

definition searchQuery :: "part \<Rightarrow> jsstr" where
  "searchQuery p =
     orElse (case args p of None \<Rightarrow> None | Some a \<Rightarrow> toolargs.query a)
       (orElse (part.query p) (js ''Unknown query''))"

definition argsReason :: "part \<Rightarrow> jsstr option" where
  "argsReason p = (case args p of None \<Rightarrow> None | Some a \<Rightarrow> toolargs.reason a)"

definition searchReason :: "part \<Rightarrow> jsstr" where
  "searchReason p = orElse (argsReason p) (js ''Research query'')"

text \<open>\<^verbatim>\<open>toolCall.toolCall?.args?.reason?.toLowerCase().includes(needle)\<close>\<close>

definition reasonIncludes :: "part \<Rightarrow> jsstr \<Rightarrow> bool" where
  "reasonIncludes p needle =
     (case argsReason p of None \<Rightarrow> False | Some r \<Rightarrow> js_includes (toLowerCase r) needle)"

definition isTangent :: "part \<Rightarrow> bool" where
  "isTangent p =
     (js_includes (toLowerCase (searchQuery p)) (js ''tangent'') \<or>
      js_includes (toLowerCase (searchQuery p)) (js ''interesting'') \<or>
      js_includes (toLowerCase (searchQuery p)) (js ''side'') \<or>
      reasonIncludes p (js ''tangent'') \<or>
      reasonIncludes p (js ''distracted'') \<or>
      reasonIncludes p (js ''side quest''))"

text \<open>The body of \<^verbatim>\<open>message.parts.forEach\<close>, as far as it updates the state.\<close>

definition processPart :: "nat \<Rightarrow> part \<Rightarrow> uiState \<Rightarrow> uiState" where
  "processPart now p st =
     (let st1 =
        (if type p = js ''tool-tavilySearch'' then
           st\<lparr>searchLog := addSearchLog now (searchQuery p) (searchReason p) (searchLog st)\<rparr>
         else st)
      in if type p = js ''text'' then processText now (text p) st1 else st1)"

text \<open>
  One assistant message: its parts in order, then the tangent searches among its search
  tool calls (\<^verbatim>\<open>searchesInThisMessage.filter((s) => s.isTangent).length\<close>).
\<close>

definition processMessage :: "nat \<Rightarrow> message \<Rightarrow> uiState \<Rightarrow> uiState" where
  "processMessage now m st =
     (let st1 = foldl (\<lambda>s p. processPart now p s) st (parts m);
          tangentSearches =
            length (filter isTangent
              (filter (\<lambda>p. type p = js ''tool-tavilySearch'') (parts m)))
      in if tangentSearches > 0
         then st1\<lparr>sideQuestCount := sideQuestCount st1 + tangentSearches\<rparr>
         else st1)"

text \<open>
  \<^verbatim>\<open>messages.forEach\<close> with the set \<^verbatim>\<open>processedMessageIds\<close>, which is created anew each
  time the effect runs.
\<close>

fun effectLoop :: "nat \<Rightarrow> jsstr set \<Rightarrow> message list \<Rightarrow> uiState \<Rightarrow> uiState" where
  "effectLoop now processedMessageIds [] st = st"
| "effectLoop now processedMessageIds (m # ms) st =
     (if role m = js ''assistant'' \<and> msg_id m \<notin> processedMessageIds
      then effectLoop now (insert (msg_id m) processedMessageIds) ms (processMessage now m st)
      else effectLoop now processedMessageIds ms st)"

text \<open>One run of the effect, which React starts whenever \<^verbatim>\<open>messages\<close> changes.\<close>

definition parseEffect :: "nat \<Rightarrow> message list \<Rightarrow> uiState \<Rightarrow> uiState" where
  "parseEffect now messages st = effectLoop now {} messages st"

section \<open>The section of searches, as the specification reads it\<close>

text \<open>
  The reading of "the section following the header": the text after the first occurrence
  of the header.
\<close>

fun spec_afterHeader :: "jsstr \<Rightarrow> jsstr \<Rightarrow> jsstr option" where
  "spec_afterHeader header [] = (if header = [] then Some [] else None)"
| "spec_afterHeader header (c # cs) =
     (if prefix header (c # cs) then Some (drop (length header) (c # cs))
      else spec_afterHeader header cs)"

text \<open>One colon (58) or dash (45) right after the header does not belong to the section.\<close>

definition spec_skipMark :: "jsstr \<Rightarrow> jsstr" where
  "spec_skipMark r = (case r of [] \<Rightarrow> [] | c # cs \<Rightarrow> if c = 58 \<or> c = 45 then cs else r)"

text \<open>The section ends in front of the first blank line, or with the text.\<close>

fun spec_untilBlank :: "jsstr \<Rightarrow> jsstr" where
  "spec_untilBlank [] = []"
| "spec_untilBlank (c # cs) =
     (if cs = [] \<or> prefix [10, 10] cs then [c] else c # spec_untilBlank cs)"

text \<open>
  The section of searches of a text: what follows the first "Searches I ran", one optional
  colon or dash and any white space, up to the first blank line. It is empty when the text
  has no such header or nothing but white space follows it.
\<close>

definition spec_searchSection :: "jsstr \<Rightarrow> jsstr" where
  "spec_searchSection t =
     (case spec_afterHeader (js ''Searches I ran'') t of
        None \<Rightarrow> []
      | Some r \<Rightarrow> spec_untilBlank (dropWhile isSpace (spec_skipMark r)))"

section \<open>The streamed tool-call lifecycle\<close>

text \<open>
  The four states of a tool-call part, which the client compares \<^verbatim>\<open>part.state\<close> with.
\<close>

datatype toolState = InputStreaming | InputAvailable | OutputAvailable | OutputError

text \<open>
  Modelled from the spec: the events of the streaming transport, which is not under src/
  (\<^verbatim>\<open>createAgentUIStreamResponse\<close> of the \<^verbatim>\<open>ai\<close> package): text deltas and the tool
  lifecycle events \<^verbatim>\<open>tool-call-start\<close> (with the tool name), \<^verbatim>\<open>tool-call-args\<close>,
  \<^verbatim>\<open>tool-call-result\<close> and \<^verbatim>\<open>tool-call-error\<close>. The number names the tool-call instance.
\<close>

datatype streamEvent =
    TextDelta jsstr
  | ToolCallStart nat jsstr
  | ToolCallArgs nat json
  | ToolCallResult nat json
  | ToolCallError nat jsstr

text \<open>
  Modelled from the spec: the parts that the client reconstruction layer (\<^verbatim>\<open>useChat\<close> of
  \<^verbatim>\<open>@ai-sdk/react\<close>, not under src/) rebuilds from the events: text, and tool calls with
  their name and state.
\<close>

datatype streamPart =
    StreamText jsstr
  | StreamToolCall nat jsstr toolState

text \<open>
  Modelled from the spec: the client reconstruction layer (\<^verbatim>\<open>useChat\<close> of
  \<^verbatim>\<open>@ai-sdk/react\<close>, not under src/), event by event. A text delta is appended to the
  current (last) text part, or opens one.
\<close>

fun appendText :: "jsstr \<Rightarrow> streamPart list \<Rightarrow> streamPart list" where
  "appendText d [] = [StreamText d]"
| "appendText d [StreamText t] = [StreamText (t @ d)]"
| "appendText d [StreamToolCall i n s] = [StreamToolCall i n s, StreamText d]"
| "appendText d (p # q # ps) = p # appendText d (q # ps)"

text \<open>
  Modelled from the spec: a lifecycle event after the start sets the state of the part of
  its tool call, whatever that state was; the reconstruction itself has no guard.
\<close>

fun setToolState :: "nat \<Rightarrow> toolState \<Rightarrow> streamPart list \<Rightarrow> streamPart list" where
  "setToolState i s [] = []"
| "setToolState i s (StreamText t # ps) = StreamText t # setToolState i s ps"
| "setToolState i s (StreamToolCall j n old # ps) =
     (if i = j then StreamToolCall j n s # ps
      else StreamToolCall j n old # setToolState i s ps)"

text \<open>
  Modelled from the spec: one event applied to the parts rebuilt so far. The start event
  adds a tool-call part in the state \<^verbatim>\<open>input-streaming\<close>, the args event makes it
  \<^verbatim>\<open>input-available\<close>, the result event \<^verbatim>\<open>output-available\<close> and the error event
  \<^verbatim>\<open>output-error\<close>.
\<close>

fun applyEvent :: "streamPart list \<Rightarrow> streamEvent \<Rightarrow> streamPart list" where
  "applyEvent ps (TextDelta d) = appendText d ps"
| "applyEvent ps (ToolCallStart i n) = ps @ [StreamToolCall i n InputStreaming]"
| "applyEvent ps (ToolCallArgs i a) = setToolState i InputAvailable ps"
| "applyEvent ps (ToolCallResult i r) = setToolState i OutputAvailable ps"
| "applyEvent ps (ToolCallError i e) = setToolState i OutputError ps"

text \<open>
  Modelled from the spec: the parts of a message are the replay of its events in arrival
  order.
\<close>

definition replay :: "streamEvent list \<Rightarrow> streamPart list" where
  "replay evs = foldl applyEvent [] evs"

text \<open>
  Modelled from the spec: the state in which a client that looks at the rebuilt parts sees
  tool call \<open>i\<close> (\<open>None\<close> before the part exists).
\<close>

fun toolStateOf :: "nat \<Rightarrow> streamPart list \<Rightarrow> toolState option" where
  "toolStateOf i [] = None"
| "toolStateOf i (StreamText t # ps) = toolStateOf i ps"
| "toolStateOf i (StreamToolCall j n s # ps) = (if i = j then Some s else toolStateOf i ps)"

text \<open>
  Modelled from the spec: the tool call an event belongs to (none for a text delta).
\<close>

fun callOf :: "streamEvent \<Rightarrow> nat option" where
  "callOf (TextDelta d) = None"
| "callOf (ToolCallStart i n) = Some i"
| "callOf (ToolCallArgs i a) = Some i"
| "callOf (ToolCallResult i r) = Some i"
| "callOf (ToolCallError i e) = Some i"

text \<open>
  Modelled from the spec: the stage of a lifecycle event, in the order start, args, then
  result or error.
\<close>

fun stage :: "streamEvent \<Rightarrow> nat" where
  "stage (TextDelta d) = 0"
| "stage (ToolCallStart i n) = 0"
| "stage (ToolCallArgs i a) = 1"
| "stage (ToolCallResult i r) = 2"
| "stage (ToolCallError i e) = 2"

text \<open>Modelled from the spec: the events of tool call \<open>i\<close> in a stream, in order.\<close>

definition eventsOf :: "nat \<Rightarrow> streamEvent list \<Rightarrow> streamEvent list" where
  "eventsOf i evs = filter (\<lambda>e. callOf e = Some i) evs"

text \<open>
  Modelled from the spec: the ordering the transport guarantees within one tool call. The
  stages start, args, result or error come in this order and each fires at most once: the
  events begin with the start and their stages rise strictly.
\<close>

definition lifecycle :: "streamEvent list \<Rightarrow> bool" where
  "lifecycle es = (sorted_wrt (<) (map stage es) \<and> (es \<noteq> [] \<longrightarrow> stage (hd es) = 0))"

text \<open>
  Modelled from the spec: a stream the transport may emit keeps that order for every tool
  call that occurs in it.
\<close>

definition causalOrder :: "streamEvent list \<Rightarrow> bool" where
  "causalOrder evs = list_all (\<lambda>i. lifecycle (eventsOf i evs)) (List.map_filter callOf evs)"

text \<open>
  Modelled from the spec: the position of a state on the path \<^verbatim>\<open>input-streaming\<close>,
  \<^verbatim>\<open>input-available\<close>, then \<^verbatim>\<open>output-available\<close> or \<^verbatim>\<open>output-error\<close>.
\<close>

fun rank :: "toolState \<Rightarrow> nat" where
  "rank InputStreaming = 0"
| "rank InputAvailable = 1"
| "rank OutputAvailable = 2"
| "rank OutputError = 2"

text \<open>
  Modelled from the spec: the state an event leaves its tool call in (a text delta belongs
  to no tool call, and its value here is never looked at).
\<close>

fun stateAfter :: "streamEvent \<Rightarrow> toolState" where
  "stateAfter (TextDelta d) = InputStreaming"
| "stateAfter (ToolCallStart i n) = InputStreaming"
| "stateAfter (ToolCallArgs i a) = InputAvailable"
| "stateAfter (ToolCallResult i r) = OutputAvailable"
| "stateAfter (ToolCallError i e) = OutputError"

section \<open>The stream of a run\<close>

text \<open>
  Modelled from the spec: the events the transport emits for one tool call of a step, with
  its result (\<open>Inl\<close>: the error text of a failed tool, \<open>Inr\<close>: its output): the start with
  the tool name, the args once the input is known, and the result or the error once the
  tool has returned. \<open>i\<close> names the tool-call instance.
\<close>

fun callEvents :: "nat \<Rightarrow> (jsstr \<times> json) \<times> (jsstr + json) \<Rightarrow> streamEvent list" where
  "callEvents i ((name, input), res) =
     [ToolCallStart i name, ToolCallArgs i input,
      (case res of Inl err \<Rightarrow> ToolCallError i err | Inr out \<Rightarrow> ToolCallResult i out)]"

text \<open>
  Modelled from the spec: the tool calls of one step, each a new instance, one after the
  other.
\<close>

fun callsEvents :: "nat \<Rightarrow> ((jsstr \<times> json) \<times> (jsstr + json)) list \<Rightarrow> streamEvent list" where
  "callsEvents i [] = []"
| "callsEvents i (cr # crs) = callEvents i cr @ callsEvents (Suc i) crs"

text \<open>
  Modelled from the spec: the stream of a run of the bounded tool loop, which is
  \<open>toolLoop\<close> emitting as it goes (the \<^verbatim>\<open>ai\<close> package, not under src/): each step emits
  the text of the model's response and then the lifecycle events of its tool calls; a
  cancelled run, a failed model call, a response without tool call and an exhausted budget
  end the stream. \<open>nextId\<close> is the first unused tool-call instance. The terminal ready or
  error event changes no part and is left out.
\<close>

function streamLoop ::
  "('h \<Rightarrow> Error + jsstr \<times> (jsstr \<times> json) list) \<Rightarrow> (jsstr \<times> json \<Rightarrow> jsstr + json)
     \<Rightarrow> ('h \<Rightarrow> jsstr \<Rightarrow> ((jsstr \<times> json) \<times> (jsstr + json)) list \<Rightarrow> 'h)
     \<Rightarrow> (nat \<Rightarrow> bool) \<Rightarrow> nat \<Rightarrow> nat \<Rightarrow> nat \<Rightarrow> 'h \<Rightarrow> streamEvent list" where
  "streamLoop askModel runTool addResults aborted remaining count nextId history =
     (if aborted count then []
      else
        case askModel history of
          Inl e \<Rightarrow> []
        | Inr (t, calls) \<Rightarrow>
            if calls = [] \<or> remaining - 1 = 0
            then TextDelta t # callsEvents nextId (map (\<lambda>c. (c, runTool c)) calls)
            else (TextDelta t # callsEvents nextId (map (\<lambda>c. (c, runTool c)) calls)) @
                 streamLoop askModel runTool addResults aborted (remaining - 1) (count + 1)
                   (nextId + length calls)
                   (addResults history t (map (\<lambda>c. (c, runTool c)) calls)))"
  by pat_completeness auto
termination
  by (relation "measure (\<lambda>(askModel, runTool, addResults, aborted, remaining, rest). remaining)")
    auto

declare streamLoop.simps [simp del]

text \<open>
  Modelled from the spec: the stream of a run of an agent, with its step budget, from
  step count zero and tool-call instance zero.
\<close>

definition runStream ::
  "agent \<Rightarrow> ('h \<Rightarrow> Error + jsstr \<times> (jsstr \<times> json) list) \<Rightarrow> (jsstr \<times> json \<Rightarrow> jsstr + json)
     \<Rightarrow> ('h \<Rightarrow> jsstr \<Rightarrow> ((jsstr \<times> json) \<times> (jsstr + json)) list \<Rightarrow> 'h)
     \<Rightarrow> (nat \<Rightarrow> bool) \<Rightarrow> 'h \<Rightarrow> streamEvent list" where
  "runStream a askModel runTool addResults aborted history =
     streamLoop askModel runTool addResults aborted (stopWhen a) 0 0 history"

section \<open>Properties of the current-activity labels\<close>

lemma replaceFirst_prefix:
  "prefix pat s \<Longrightarrow> replaceFirst pat rep s = rep @ drop (length pat) s"
  by (cases s) auto

lemma displayName_spec_label:
  assumes "prefix (js ''tool-'') (type p)"
  shows "displayName p = spec_label (drop 5 (type p))"
proof -
  have "length (js ''tool-'') = 5"
    by (simp add: js_def)
  then have "replaceFirst (js ''tool-'') [] (type p) = drop 5 (type p)"
    using replaceFirst_prefix [OF assms, of "[]"] by simp
  then show ?thesis
    by (simp add: displayName_def spec_label_def Let_def js_def)
qed

lemma activity_of_parts:
  "concat (map pushActivity (filter activeToolPart ps)) =
   map (\<lambda>p. spec_label (drop 5 (type p))) (filter spec_inFlight ps)"
proof (induction ps)
  case Nil
  then show ?case by simp
next
  case (Cons p ps)
  show ?case
  proof (cases "spec_inFlight p")
    case True
    then have "activeToolPart p" and "pushActivity p = [displayName p]"
      by (auto simp: spec_inFlight_def activeToolPart_def pushActivity_def startsWith_def)
    moreover from True have "displayName p = spec_label (drop 5 (type p))"
      by (simp add: spec_inFlight_def displayName_spec_label)
    ultimately show ?thesis using True Cons.IH by simp
  next
    case False
    then have "activeToolPart p \<Longrightarrow> pushActivity p = []"
      by (auto simp: spec_inFlight_def activeToolPart_def pushActivity_def startsWith_def)
    then show ?thesis using False Cons.IH by (cases "activeToolPart p") simp_all
  qed
qed

text \<open>
  C8. The activity labels depend only on the last message: for the empty message list the
  result is empty, and for a list ending in message \<open>m\<close> the result has one label per tool
  part of \<open>m\<close> whose state is \<^verbatim>\<open>input-streaming\<close> or \<^verbatim>\<open>input-available\<close>, in part order,
  whatever the earlier messages \<open>ms\<close> hold; parts in the states \<^verbatim>\<open>output-available\<close> and
  \<^verbatim>\<open>output-error\<close> give no label. The label of \<^verbatim>\<open>tavilySearch\<close> is "Searching web", of
  \<^verbatim>\<open>factCheck\<close> "Fact-checking", of \<^verbatim>\<open>summarize\<close> "Summarizing", of
  \<^verbatim>\<open>findRandomTangents\<close> "Finding tangents", and any other tool name is its own label.
\<close>

theorem getCurrentToolActivity_last_in_flight:
  "getCurrentToolActivity [] = [] \<and>
   getCurrentToolActivity (ms @ [m]) =
     map (\<lambda>p. spec_label (drop 5 (type p))) (filter spec_inFlight (parts m)) \<and>
   \<not> spec_inFlight (p\<lparr>state := Some (js ''output-available'')\<rparr>) \<and>
   \<not> spec_inFlight (p\<lparr>state := Some (js ''output-error'')\<rparr>) \<and>
   spec_label (js ''tavilySearch'') = js ''Searching web'' \<and>
   spec_label (js ''factCheck'') = js ''Fact-checking'' \<and>
   spec_label (js ''summarize'') = js ''Summarizing'' \<and>
   spec_label (js ''findRandomTangents'') = js ''Finding tangents'' \<and>
   (n \<notin> {js ''tavilySearch'', js ''factCheck'', js ''summarize'', js ''findRandomTangents''}
      \<longrightarrow> spec_label n = n)"
proof -
  have a: "getCurrentToolActivity [] = []"
    by (simp add: getCurrentToolActivity_def)
  have b: "getCurrentToolActivity (ms @ [m]) =
      map (\<lambda>p. spec_label (drop 5 (type p))) (filter spec_inFlight (parts m))"
    by (simp add: getCurrentToolActivity_def Let_def activity_of_parts)
  have c: "\<not> spec_inFlight (p\<lparr>state := Some (js ''output-available'')\<rparr>)"
    by (simp add: spec_inFlight_def js_def)
  have d: "\<not> spec_inFlight (p\<lparr>state := Some (js ''output-error'')\<rparr>)"
    by (simp add: spec_inFlight_def js_def)
  have e: "spec_label (js ''tavilySearch'') = js ''Searching web''"
    by (simp add: spec_label_def js_def)
  have f: "spec_label (js ''factCheck'') = js ''Fact-checking''"
    by (simp add: spec_label_def js_def)
  have g: "spec_label (js ''summarize'') = js ''Summarizing''"
    by (simp add: spec_label_def js_def)
  have h: "spec_label (js ''findRandomTangents'') = js ''Finding tangents''"
    by (simp add: spec_label_def js_def)
  have i: "n \<notin> {js ''tavilySearch'', js ''factCheck'', js ''summarize'',
      js ''findRandomTangents''} \<longrightarrow> spec_label n = n"
    by (simp add: spec_label_def)
  from a b c d e f g h i show ?thesis by blast
qed

theorem getCurrentToolActivity_last_in_flight_witness:
  "getCurrentToolActivity
     [\<lparr>msg_id = js ''m1'', role = js ''assistant'',
       parts = [toolPart ''tavilySearch'' ''input-available'']\<rparr>,
      \<lparr>msg_id = js ''m2'', role = js ''assistant'',
       parts = [toolPart ''tavilySearch'' ''output-available'',
                textPart (js ''checking''),
                toolPart ''factCheck'' ''input-streaming'',
                toolPart ''lookup'' ''input-available'',
                toolPart ''summarize'' ''output-error'']\<rparr>]
   = [js ''Fact-checking'', js ''lookup''] \<and>
   js ''lookup'' \<notin> {js ''tavilySearch'', js ''factCheck'', js ''summarize'',
      js ''findRandomTangents''} \<and>
   spec_label (js ''lookup'') = js ''lookup''"
  using getCurrentToolActivity_last_in_flight
    [of "[\<lparr>msg_id = js ''m1'', role = js ''assistant'',
          parts = [toolPart ''tavilySearch'' ''input-available'']\<rparr>]"
        "\<lparr>msg_id = js ''m2'', role = js ''assistant'',
          parts = [toolPart ''tavilySearch'' ''output-available'',
                   textPart (js ''checking''),
                   toolPart ''factCheck'' ''input-streaming'',
                   toolPart ''lookup'' ''input-available'',
                   toolPart ''summarize'' ''output-error'']\<rparr>"
        blankPart "js ''lookup''"]
  by (simp add: spec_inFlight_def spec_label_def toolPart_def textPart_def blankPart_def
      js_def)

section \<open>Properties of the source list\<close>




section \<open>Properties of the sub-agent tools\<close>



section \<open>Properties of the endpoint\<close>

text \<open>
  C4, as stated, fails: the error message of the JSON payload is not a generic one. For a
  body that is not JSON the handler answers with the parser's own message.
\<close>

theorem POST_error_message_not_generic:
  "POST \<lparr>json = Inl \<lparr>message = js ''Unexpected end of JSON input''\<rparr>\<rparr> =
     JsonErrorResponse (js ''Unexpected end of JSON input'')
       \<lparr>status = 500, headers = [(js ''Content-Type'', js ''application/json'')]\<rparr> \<and>
   js ''Unexpected end of JSON input'' \<noteq> js ''Internal server error''"
  by (simp add: POST_def POST_catch_def orElse_def js_def)

text \<open>
  C4, amended. When reading the request throws, the handler returns a response that is not a
  stream: status 500, content type \<^verbatim>\<open>application/json\<close>, and a JSON object whose
  \<^verbatim>\<open>error\<close> is the message of the thrown error, or "Internal server error" when that
  message is empty.
\<close>

theorem POST_throw_returns_json_500:
  assumes "json req = Inl error"
  shows "POST req =
           JsonErrorResponse
             (if message error = [] then js ''Internal server error'' else message error)
             \<lparr>status = 500, headers = [(js ''Content-Type'', js ''application/json'')]\<rparr>"
  using assms by (simp add: POST_def POST_catch_def orElse_def)

theorem POST_throw_returns_json_500_witness:
  "json \<lparr>json = Inl \<lparr>message = []\<rparr>\<rparr> = Inl \<lparr>message = []\<rparr> \<and>
   POST \<lparr>json = Inl \<lparr>message = []\<rparr>\<rparr> =
     JsonErrorResponse (js ''Internal server error'')
       \<lparr>status = 500, headers = [(js ''Content-Type'', js ''application/json'')]\<rparr>"
  using POST_throw_returns_json_500 [of "\<lparr>json = Inl \<lparr>message = []\<rparr>\<rparr>" "\<lparr>message = []\<rparr>"]
  by simp

section \<open>Properties of the tool input schemas\<close>

lemma factCheck_accepts:
  "safeParse (inputSchema factCheckTool) input \<noteq> None \<longleftrightarrow>
     (\<exists>kvs. input = JObj kvs \<and> isString (map_of kvs (js ''researchNotes'')))"
  by (auto simp: safeParse_def factCheckTool_def isString_def split: json.splits option.splits)

lemma tangents_accepts:
  "safeParse (inputSchema findRandomTangentsTool) input \<noteq> None \<longleftrightarrow>
     (\<exists>kvs. input = JObj kvs \<and> isString (map_of kvs (js ''mainTopic'')) \<and>
        isString (map_of kvs (js ''researchNotes'')))"
  by (auto simp: safeParse_def findRandomTangentsTool_def isString_def
      split: json.splits option.splits)

lemma summarize_accepts:
  "safeParse (inputSchema summarizeTool) input \<noteq> None \<longleftrightarrow>
     (\<exists>kvs. input = JObj kvs \<and> isString (map_of kvs (js ''factCheckedFindings'')) \<and>
        (map_of kvs (js ''originalQuestion'') = None \<or>
         isString (map_of kvs (js ''originalQuestion''))))"
  by (auto simp: safeParse_def summarizeTool_def isString_def
      split: json.splits option.splits)

lemma callTool_rejected:
  "safeParse (inputSchema t) input = None \<Longrightarrow>
     callTool t generate input ctx = ([], Inl InvalidToolInput)"
  by (simp add: callTool_def)

text \<open>
  C6. The input schemas reject malformed input before any model dispatch. The input of
  \<^verbatim>\<open>factCheck\<close> is accepted exactly when it is an object whose \<^verbatim>\<open>researchNotes\<close> is a
  string; the input of \<^verbatim>\<open>findRandomTangents\<close> exactly when \<^verbatim>\<open>mainTopic\<close> and
  \<^verbatim>\<open>researchNotes\<close> are both strings; the input of \<^verbatim>\<open>summarize\<close> exactly when
  \<^verbatim>\<open>factCheckedFindings\<close> is a string and \<^verbatim>\<open>originalQuestion\<close> is absent or a string.
  A call of one of the three tools with a rejected input (so with a required field
  missing) returns an input error and makes no \<^verbatim>\<open>generate\<close> call on the sub-agent.
\<close>

theorem tool_input_schemas_reject_before_dispatch:
  "(safeParse (inputSchema factCheckTool) input \<noteq> None \<longleftrightarrow>
      (\<exists>kvs. input = JObj kvs \<and> isString (map_of kvs (js ''researchNotes'')))) \<and>
   (safeParse (inputSchema findRandomTangentsTool) input \<noteq> None \<longleftrightarrow>
      (\<exists>kvs. input = JObj kvs \<and> isString (map_of kvs (js ''mainTopic'')) \<and>
         isString (map_of kvs (js ''researchNotes'')))) \<and>
   (safeParse (inputSchema summarizeTool) input \<noteq> None \<longleftrightarrow>
      (\<exists>kvs. input = JObj kvs \<and> isString (map_of kvs (js ''factCheckedFindings'')) \<and>
         (map_of kvs (js ''originalQuestion'') = None \<or>
          isString (map_of kvs (js ''originalQuestion''))))) \<and>
   (t \<in> {factCheckTool, findRandomTangentsTool, summarizeTool} \<and>
    safeParse (inputSchema t) input = None \<longrightarrow>
      callTool t generate input ctx = ([], Inl InvalidToolInput))"
  using factCheck_accepts [of input] tangents_accepts [of input] summarize_accepts [of input]
    callTool_rejected [of t input generate ctx]
  by blast

theorem tool_input_schemas_reject_before_dispatch_witness:
  "factCheckTool \<in> {factCheckTool, findRandomTangentsTool, summarizeTool} \<and>
   safeParse (inputSchema factCheckTool) (JObj [(js ''notes'', JStr (js ''Claim: x''))]) = None \<and>
   callTool factCheckTool (\<lambda>c. js ''ok'') (JObj [(js ''notes'', JStr (js ''Claim: x''))])
     \<lparr>toolContext.abortSignal = None\<rparr> = ([], Inl InvalidToolInput)"
proof -
  have h: "safeParse (inputSchema factCheckTool) (JObj [(js ''notes'', JStr (js ''Claim: x''))])
      = None"
    by (simp add: safeParse_def factCheckTool_def js_def)
  show ?thesis
    using h tool_input_schemas_reject_before_dispatch
      [of "JObj [(js ''notes'', JStr (js ''Claim: x''))]" factCheckTool "\<lambda>c. js ''ok''"
          "\<lparr>toolContext.abortSignal = None\<rparr>"]
    by simp
qed

section \<open>Properties of the bounded tool loop\<close>

lemma toolLoop_bound:
  "roundTrips (toolLoop askModel runTool addResults aborted remaining count sofar history)
     \<le> count + max 1 remaining"
proof (induction askModel runTool addResults aborted remaining count sofar history
    rule: toolLoop.induct)
  case (1 askModel runTool addResults aborted remaining count sofar history)
  show ?case
  proof (cases "aborted count")
    case True
    then show ?thesis by (subst toolLoop.simps) simp
  next
    case False
    show ?thesis
    proof (cases "askModel history")
      case (Inl e)
      with False show ?thesis by (subst toolLoop.simps) simp
    next
      case (Inr r)
      obtain t calls where r: "r = (t, calls)" by (cases r)
      show ?thesis
      proof (cases "calls = [] \<or> remaining - 1 = 0")
        case True
        with False Inr r show ?thesis by (subst toolLoop.simps) auto
      next
        case stop: False
        have "roundTrips (toolLoop askModel runTool addResults aborted (remaining - 1)
               (count + 1) (sofar @ t) (addResults history t (map (\<lambda>c. (c, runTool c)) calls)))
              \<le> (count + 1) + max 1 (remaining - 1)"
          using "1.IH" [OF False Inr r [symmetric] stop] .
        moreover have "(count + 1) + max 1 (remaining - 1) \<le> count + max 1 remaining"
          using stop by auto
        ultimately show ?thesis
          using False Inr r stop by (subst toolLoop.simps) auto
      qed
    qed
  qed
qed

lemma toolLoop_failed:
  "outcome (toolLoop askModel runTool addResults aborted remaining count sofar history) = Failed e
     \<Longrightarrow> \<exists>h. askModel h = Inl e"
proof (induction askModel runTool addResults aborted remaining count sofar history
    rule: toolLoop.induct)
  case (1 askModel runTool addResults aborted remaining count sofar history)
  note prem = "1.prems"
  show ?case
  proof (cases "aborted count")
    case True
    with prem show ?thesis by (subst (asm) toolLoop.simps) simp
  next
    case False
    show ?thesis
    proof (cases "askModel history")
      case (Inl e')
      with False prem have "e' = e" by (subst (asm) toolLoop.simps) simp
      with Inl show ?thesis by blast
    next
      case (Inr r)
      obtain t calls where r: "r = (t, calls)" by (cases r)
      show ?thesis
      proof (cases "calls = [] \<or> remaining - 1 = 0")
        case True
        with False Inr r prem show ?thesis by (subst (asm) toolLoop.simps) auto
      next
        case stop: False
        have "outcome (toolLoop askModel runTool addResults aborted (remaining - 1)
               (count + 1) (sofar @ t) (addResults history t (map (\<lambda>c. (c, runTool c)) calls)))
              = Failed e"
          using prem False Inr r stop by (subst (asm) toolLoop.simps) auto
        then show ?thesis
          using "1.IH" [OF False Inr r [symmetric] stop] by blast
      qed
    qed
  qed
qed

lemma runAgent_bound:
  "roundTrips (runAgent a askModel runTool addResults aborted history) \<le> max 1 (stopWhen a)"
  using toolLoop_bound [of askModel runTool addResults aborted "stopWhen a" 0 "[]" history]
  by (simp add: runAgent_def)

lemma runAgent_normal:
  assumes "\<forall>h. \<exists>r. askModel h = Inr r"
  shows "\<exists>t. outcome (runAgent a askModel runTool addResults aborted history) = Completed t \<or>
             outcome (runAgent a askModel runTool addResults aborted history) = Cancelled t"
proof (cases "outcome (runAgent a askModel runTool addResults aborted history)")
  case (Completed t)
  then show ?thesis by blast
next
  case (Cancelled t)
  then show ?thesis by blast
next
  case (Failed e)
  then have "\<exists>h. askModel h = Inl e"
    unfolding runAgent_def by (rule toolLoop_failed)
  with assms show ?thesis by (metis sum.distinct(1))
qed

text \<open>
  C1. Every agent loop is bounded by its step budget. Whatever the model answers, whatever
  the tools return and whenever the turn is cancelled, a run of the chat agent makes at most
  15 model round-trips and a run of the fact-checker, of the summarizer and of the
  random-tangents agent at most 5. Reaching the budget is no error: when no model call
  fails, the run of any of these agents ends normally, with the text produced so far
  (or by cancellation).
\<close>

theorem step_budget_bounds_round_trips:
  "roundTrips (runAgent createChatAgent askModel runTool addResults aborted history) \<le> 15 \<and>
   roundTrips (runAgent factCheckerAgent askModel runTool addResults aborted history) \<le> 5 \<and>
   roundTrips (runAgent summarizerAgent askModel runTool addResults aborted history) \<le> 5 \<and>
   roundTrips (runAgent randomTangentsAgent askModel runTool addResults aborted history) \<le> 5 \<and>
   ((\<forall>h. \<exists>r. askModel h = Inr r) \<longrightarrow>
      (\<exists>t. outcome (runAgent a askModel runTool addResults aborted history) = Completed t \<or>
           outcome (runAgent a askModel runTool addResults aborted history) = Cancelled t))"
proof -
  have "roundTrips (runAgent createChatAgent askModel runTool addResults aborted history) \<le> 15"
    using runAgent_bound [of createChatAgent askModel runTool addResults aborted history]
    by (simp add: createChatAgent_def stepCountIs_def)
  moreover
  have "roundTrips (runAgent factCheckerAgent askModel runTool addResults aborted history) \<le> 5"
    using runAgent_bound [of factCheckerAgent askModel runTool addResults aborted history]
    by (simp add: factCheckerAgent_def stepCountIs_def)
  moreover
  have "roundTrips (runAgent summarizerAgent askModel runTool addResults aborted history) \<le> 5"
    using runAgent_bound [of summarizerAgent askModel runTool addResults aborted history]
    by (simp add: summarizerAgent_def stepCountIs_def)
  moreover
  have "roundTrips (runAgent randomTangentsAgent askModel runTool addResults aborted history)
      \<le> 5"
    using runAgent_bound [of randomTangentsAgent askModel runTool addResults aborted history]
    by (simp add: randomTangentsAgent_def stepCountIs_def)
  ultimately show ?thesis
    using runAgent_normal [of askModel a runTool addResults aborted history] by blast
qed

text \<open>
  A model that asks for a tool call at every step: the chat agent stops after exactly 15
  round-trips, normally.
\<close>

theorem step_budget_bounds_round_trips_witness:
  "(\<forall>h::nat. \<exists>r. (\<lambda>h. Inr ([], [js ''tavilySearch''])) h = (Inr r :: Error + jsstr \<times> jsstr list)) \<and>
   runAgent createChatAgent (\<lambda>h::nat. Inr ([], [js ''tavilySearch''])) (\<lambda>c. js ''results'')
       (\<lambda>h t rs. h + length rs) (\<lambda>n. False) 0
     = \<lparr>roundTrips = 15, outcome = Completed []\<rparr> \<and>
   roundTrips (runAgent createChatAgent (\<lambda>h::nat. Inr ([], [js ''tavilySearch'']))
       (\<lambda>c. js ''results'') (\<lambda>h t rs. h + length rs) (\<lambda>n. False) 0) \<le> 15"
proof -
  have h: "\<forall>h::nat. \<exists>r. (\<lambda>h. Inr ([], [js ''tavilySearch''])) h
      = (Inr r :: Error + jsstr \<times> jsstr list)"
    by simp
  have run: "runAgent createChatAgent (\<lambda>h::nat. Inr ([], [js ''tavilySearch'']))
       (\<lambda>c. js ''results'') (\<lambda>h t rs. h + length rs) (\<lambda>n. False) 0
     = \<lparr>roundTrips = 15, outcome = Completed []\<rparr>"
    by (simp add: runAgent_def createChatAgent_def stepCountIs_def)
  show ?thesis
    using h run step_budget_bounds_round_trips
      [of "\<lambda>h::nat. Inr ([], [js ''tavilySearch''])" "\<lambda>c. js ''results''"
          "\<lambda>h t rs. h + length rs" "\<lambda>n. False" 0 createChatAgent]
    by simp
qed

section \<open>Properties of the tangent-mention counter\<close>

lemma prefix_matchesIgnoreCase: "prefix p s \<Longrightarrow> matchesIgnoreCase p s"
proof (induction p arbitrary: s)
  case Nil
  then show ?case by simp
next
  case (Cons a p)
  then obtain s' where "s = a # s'" and "prefix p s'"
    by (cases s) auto
  with Cons.IH show ?case by simp
qed

lemma mentionAt_None:
  assumes "mentionAt s = None"
  shows "\<not> matchesIgnoreCase (js ''got distracted'') s"
    and "\<not> matchesIgnoreCase (js ''side quest'') s"
    and "\<not> matchesIgnoreCase (js ''tangent'') s"
  using assms by (auto simp: mentionAt_def split: if_splits)

lemma mention_found:
  assumes "p = js ''got distracted'' \<or> p = js ''side quest'' \<or> p = js ''tangent''"
    and "js_includes t p"
  shows "1 \<le> tangentMentions t"
  using assms(2)
proof (induction t)
  case Nil
  with assms(1) show ?case by (auto simp: js_def)
next
  case (Cons c cs)
  show ?case
  proof (cases "mentionAt (c # cs)")
    case (Some n)
    then show ?thesis by simp
  next
    case None
    from mentionAt_None [OF None] assms(1) have "\<not> matchesIgnoreCase p (c # cs)"
      by blast
    then have "\<not> prefix p (c # cs)"
      using prefix_matchesIgnoreCase by blast
    with Cons.prems have "js_includes cs p" by simp
    with Cons.IH None show ?thesis by simp
  qed
qed

text \<open>
  C10, as stated, fails: the increment is not always the minimum of the number of
  case-insensitive matches and 2. The text "Tangent" has one match, and the counter stays
  at 0, because the guard in front of the count is case-sensitive.
\<close>

theorem capitalised_mention_not_counted:
  "tangentMentions (js ''Tangent'') = 1 \<and>
   sideQuestCount (mentionStep (js ''Tangent'') \<lparr>sideQuestCount = 0, searchLog = []\<rparr>) = 0"
  by (simp add: mentionStep_def mentionGuard_def mentionAt_def canonicalize_def js_def)

text \<open>
  C10, amended. When the text contains "got distracted", "side quest" or "tangent" in
  exactly this (lower-case) spelling, the keyword rule adds the minimum of 2 and the number
  of case-insensitive matches of the three phrases, which is then at least 1; otherwise the
  rule adds nothing. In every case the rule adds at most 2 and leaves the search log alone.
\<close>

theorem mention_increment_capped:
  "sideQuestCount (mentionStep t st) =
     sideQuestCount st + (if mentionGuard t then min (tangentMentions t) 2 else 0) \<and>
   sideQuestCount (mentionStep t st) \<le> sideQuestCount st + 2 \<and>
   (mentionGuard t \<longrightarrow> 1 \<le> tangentMentions t) \<and>
   searchLog (mentionStep t st) = searchLog st"
proof -
  have "mentionGuard t \<Longrightarrow> 1 \<le> tangentMentions t"
    unfolding mentionGuard_def using mention_found [of _ t] by blast
  then show ?thesis
    by (auto simp: mentionStep_def)
qed

theorem mention_increment_capped_witness:
  "mentionGuard (js ''I got distracted by a tangent. Tangents! A side quest.'') \<and>
   tangentMentions (js ''I got distracted by a tangent. Tangents! A side quest.'') = 4 \<and>
   sideQuestCount (mentionStep (js ''I got distracted by a tangent. Tangents! A side quest.'')
     \<lparr>sideQuestCount = 3, searchLog = []\<rparr>) = 5"
proof -
  have g: "mentionGuard (js ''I got distracted by a tangent. Tangents! A side quest.'')"
    by (simp add: mentionGuard_def js_def)
  have n: "tangentMentions (js ''I got distracted by a tangent. Tangents! A side quest.'') = 4"
    by (simp add: mentionAt_def canonicalize_def js_def)
  show ?thesis
    using g n mention_increment_capped
      [of "js ''I got distracted by a tangent. Tangents! A side quest.''"
          "\<lparr>sideQuestCount = 3, searchLog = []\<rparr>"]
    by simp
qed

section \<open>Properties of the text-part parsing\<close>

lemma lazyGroup_untilBlank: "lazyGroup [[10, 10]] r = spec_untilBlank r"
  by (induction r) (auto simp: lookahead_def)

lemma lazyGroup_single: "lazyGroup stops [c] = [c]"
  by (simp add: lookahead_def)

lemma starSpace_below:
  "k < length r \<Longrightarrow> starSpace stops r k = Some (lazyGroup stops (drop k r))"
  by (cases k) auto

lemma afterOptional_closed:
  "afterOptional stops r =
     (if dropWhile isSpace r \<noteq> [] then Some (lazyGroup stops (dropWhile isSpace r))
      else if r \<noteq> [] then Some [last r] else None)"
proof -
  let ?m = "length (takeWhile isSpace r)"
  have dw: "drop ?m r = dropWhile isSpace r" by (simp add: dropWhile_eq_drop)
  show ?thesis
  proof (cases "dropWhile isSpace r \<noteq> []")
    case True
    then have "?m < length r"
      using dw by (metis drop_all not_le_imp_less)
    then show ?thesis using True dw by (simp add: afterOptional_def starSpace_below)
  next
    case False
    then have all: "takeWhile isSpace r = r"
      by (metis append_Nil2 takeWhile_dropWhile_id)
    show ?thesis
    proof (cases r rule: rev_cases)
      case Nil
      then show ?thesis by (simp add: afterOptional_def)
    next
      case (snoc xs x)
      then have m: "?m = Suc (length xs)" using all by simp
      have "starSpace stops r (Suc (length xs)) = starSpace stops r (length xs)"
        using snoc by simp
      also have "\<dots> = Some (lazyGroup stops (drop (length xs) r))"
        using snoc by (simp add: starSpace_below)
      also have "\<dots> = Some [x]" using snoc by (simp add: lookahead_def)
      finally show ?thesis using False snoc m by (simp add: afterOptional_def)
    qed
  qed
qed

lemma bulletLines_single_space: "isSpace c \<Longrightarrow> bulletLines [c] = []"
  by (auto simp: bulletLines_def isBulletLine_def trim_def startsWith_def)

lemma bulletLines_single_mark: "c = 58 \<or> c = 45 \<Longrightarrow> bulletLines [c] = []"
  by (auto simp: bulletLines_def isBulletLine_def stripBullet_def trim_def startsWith_def
      isSpace_def)

lemma bulletLines_Nil: "bulletLines [] = []"
  by (simp add: bulletLines_def isBulletLine_def trim_def startsWith_def)

lemma matchAt_None: "matchAt stops r = None \<Longrightarrow> r = []"
  by (cases r) (auto simp: matchAt_def afterOptional_closed split: if_splits option.splits)

lemma dropWhile_isSpace_last:
  "r \<noteq> [] \<Longrightarrow> dropWhile isSpace r = [] \<Longrightarrow> isSpace (last r)"
  by (metis dropWhile_eq_Nil_conv last_in_set)

lemma afterOptional_bulletLines:
  assumes "afterOptional [[10, 10]] r = Some g"
  shows "bulletLines g = bulletLines (spec_untilBlank (dropWhile isSpace r))"
proof (cases "dropWhile isSpace r \<noteq> []")
  case True
  with assms show ?thesis by (simp add: afterOptional_closed lazyGroup_untilBlank)
next
  case False
  with assms have "r \<noteq> []" and "g = [last r]"
    by (auto simp: afterOptional_closed split: if_splits)
  moreover from this False have "isSpace (last r)" by (simp add: dropWhile_isSpace_last)
  ultimately have "bulletLines g = []" by (simp add: bulletLines_single_space)
  moreover from False have "dropWhile isSpace r = []" by simp
  then have "bulletLines (spec_untilBlank (dropWhile isSpace r)) = []"
    by (simp only: spec_untilBlank.simps bulletLines_Nil)
  ultimately show ?thesis by simp
qed

lemma matchAt_bulletLines:
  assumes "matchAt [[10, 10]] r = Some g"
  shows "bulletLines g = bulletLines (spec_untilBlank (dropWhile isSpace (spec_skipMark r)))"
proof (cases r)
  case Nil
  with assms show ?thesis by (simp add: matchAt_def)
next
  case (Cons c cs)
  show ?thesis
  proof (cases "c = 58 \<or> c = 45")
    case False
    with Cons assms have "afterOptional [[10, 10]] r = Some g"
      by (simp add: matchAt_def)
    from afterOptional_bulletLines [OF this] False Cons show ?thesis
      by (simp add: spec_skipMark_def)
  next
    case True
    then have skip: "spec_skipMark r = cs" using Cons by (simp add: spec_skipMark_def)
    show ?thesis
    proof (cases "afterOptional [[10, 10]] cs")
      case (Some g')
      with assms Cons True have "g' = g" by (simp add: matchAt_def)
      with Some afterOptional_bulletLines skip show ?thesis by simp
    next
      case None
      then have cs: "cs = []" by (auto simp: afterOptional_closed split: if_splits)
      from True have "\<not> isSpace c" by (auto simp: isSpace_def)
      with assms Cons True None cs have "g = [c]"
        by (simp add: matchAt_def afterOptional_closed lookahead_def)
      with True skip cs show ?thesis
        by (simp add: bulletLines_single_mark bulletLines_Nil)
    qed
  qed
qed

lemma matchSection_short: "length t < length header \<Longrightarrow> matchSection header stops t = None"
proof (induction t)
  case Nil
  then show ?case by simp
next
  case (Cons c cs)
  then have "\<not> prefix header (c # cs)"
    by (auto dest: prefix_length_le)
  with Cons show ?case by simp
qed

lemma matchSection_first:
  "matchSection header stops t =
     (case spec_afterHeader header t of None \<Rightarrow> None | Some r \<Rightarrow> matchAt stops r)"
proof (induction t)
  case Nil
  then show ?case by (simp add: matchAt_def)
next
  case (Cons c cs)
  show ?case
  proof (cases "prefix header (c # cs)")
    case False
    with Cons show ?thesis by simp
  next
    case True
    show ?thesis
    proof (cases "matchAt stops (drop (length header) (c # cs))")
      case (Some g)
      with True show ?thesis by simp
    next
      case None
      then have "drop (length header) (c # cs) = []" by (rule matchAt_None)
      then have "length (c # cs) \<le> length header" by simp
      then have "length cs < length header" by simp
      then have "matchSection header stops cs = None" by (rule matchSection_short)
      with True None show ?thesis by simp
    qed
  qed
qed

lemma includes_afterHeader: "js_includes t header \<longleftrightarrow> spec_afterHeader header t \<noteq> None"
  by (induction t) auto

lemma searchesStep_section:
  "searchesStep now t st =
     st\<lparr>searchLog := foldl (\<lambda>prev line. logLine now line prev) (searchLog st)
                        (bulletLines (spec_searchSection t))\<rparr>"
proof (cases "spec_afterHeader (js ''Searches I ran'') t")
  case None
  then have "\<not> js_includes t (js ''Searches I ran'')" by (simp add: includes_afterHeader)
  with None show ?thesis
    by (simp add: searchesStep_def spec_searchSection_def bulletLines_Nil)
next
  case (Some r)
  then have inc: "js_includes t (js ''Searches I ran'')" by (simp add: includes_afterHeader)
  have nn: "js ''\<newline>\<newline>'' = [10, 10]" by (simp add: js_def)
  have ms: "matchSection (js ''Searches I ran'') [js ''\<newline>\<newline>''] t = matchAt [[10, 10]] r"
    using Some by (simp add: matchSection_first nn)
  show ?thesis
  proof (cases "matchAt [[10, 10]] r")
    case None
    then have "r = []" by (rule matchAt_None)
    with Some None ms inc show ?thesis
      by (simp add: searchesStep_def spec_searchSection_def spec_skipMark_def bulletLines_Nil)
  next
    case (Some g)
    from matchAt_bulletLines [OF this] Some ms inc \<open>spec_afterHeader (js ''Searches I ran'') t = Some r\<close>
    show ?thesis
      by (simp add: searchesStep_def spec_searchSection_def)
  qed
qed

lemma logLine_new:
  "e \<in> set (logLine now line prev) \<Longrightarrow> e \<notin> set prev \<Longrightarrow>
     SearchLogEntry.query e = hd (lineParts line) \<and>
     SearchLogEntry.reason e =
       (if 2 \<le> length (lineParts line) then join (js '' - '') (drop 1 (lineParts line))
        else js ''No reason provided'')"
  by (auto simp: logLine_def addSearchLog_def addQueryOnly_def Let_def split: if_splits)

lemma foldl_logLine_new:
  "e \<in> set (foldl (\<lambda>prev line. logLine now line prev) log lines) \<Longrightarrow> e \<notin> set log \<Longrightarrow>
     \<exists>line \<in> set lines.
       SearchLogEntry.query e = hd (lineParts line) \<and>
       SearchLogEntry.reason e =
         (if 2 \<le> length (lineParts line) then join (js '' - '') (drop 1 (lineParts line))
          else js ''No reason provided'')"
proof (induction lines arbitrary: log)
  case Nil
  then show ?case by simp
next
  case (Cons l ls)
  show ?case
  proof (cases "e \<in> set (logLine now l log)")
    case True
    with Cons.prems(2) logLine_new show ?thesis by fastforce
  next
    case False
    with Cons.IH [of "logLine now l log"] Cons.prems(1) show ?thesis by auto
  qed
qed

lemma bulletLines_origin:
  "l \<in> set (bulletLines g) \<Longrightarrow>
     \<exists>line \<in> set (splitWhere (\<lambda>c. c = 10) g). isBulletLine line \<and> l = trim (stripBullet line)"
  by (auto simp: bulletLines_def)

lemma no_markers_unchanged:
  assumes "\<not> js_includes t (js ''Probably irrelevant but interesting'')"
    and "\<not> js_includes t (js ''got distracted'')"
    and "\<not> js_includes t (js ''side quest'')"
    and "\<not> js_includes t (js ''tangent'')"
    and "\<not> js_includes t (js ''Searches I ran'')"
  shows "processText now t st = st"
  using assms
  by (simp add: processText_def sideQuestStep_def mentionStep_def mentionGuard_def
      searchesStep_def)

lemma searchLog_before_searches:
  "searchLog (mentionStep t (sideQuestStep t st)) = searchLog st"
  by (simp add: mentionStep_def sideQuestStep_def split: option.splits)

lemma afterHeader_first:
  "spec_afterHeader header t = Some r \<Longrightarrow>
     \<exists>pre. t = pre @ header @ r \<and> (\<forall>p < length pre. \<not> prefix header (drop p t))"
proof (induction t)
  case Nil
  then show ?case by (auto split: if_splits)
next
  case (Cons c cs)
  show ?case
  proof (cases "prefix header (c # cs)")
    case True
    with Cons.prems have r: "r = drop (length header) (c # cs)" by simp
    from True have "c # cs = header @ drop (length header) (c # cs)"
      by (metis append_eq_conv_conj prefix_def)
    with r have "c # cs = [] @ header @ r \<and>
        (\<forall>p < length ([] :: jsstr). \<not> prefix header (drop p (c # cs)))"
      by simp
    then show ?thesis by blast
  next
    case False
    with Cons.prems have "spec_afterHeader header cs = Some r" by simp
    from Cons.IH [OF this] obtain pre where
      cs: "cs = pre @ header @ r" and first: "\<forall>p < length pre. \<not> prefix header (drop p cs)"
      by blast
    have "\<forall>p < length (c # pre). \<not> prefix header (drop p (c # cs))"
    proof (intro allI impI)
      fix p
      assume "p < length (c # pre)"
      then show "\<not> prefix header (drop p (c # cs))"
        using False first by (cases p) auto
    qed
    moreover from cs have "c # cs = (c # pre) @ header @ r" by simp
    ultimately show ?thesis by blast
  qed
qed

lemma untilBlank_shape:
  "r \<noteq> [] \<Longrightarrow>
     \<exists>post. r = spec_untilBlank r @ post \<and> spec_untilBlank r \<noteq> [] \<and>
       hd (spec_untilBlank r) = hd r \<and> (post = [] \<or> prefix [10, 10] post) \<and>
       (\<forall>k. 0 < k \<and> k < length (spec_untilBlank r) \<longrightarrow> \<not> prefix [10, 10] (drop k r))"
proof (induction r)
  case Nil
  then show ?case by simp
next
  case (Cons c cs)
  show ?case
  proof (cases "cs = [] \<or> prefix [10, 10] cs")
    case True
    then have "spec_untilBlank (c # cs) = [c]" by auto
    with True show ?thesis by auto
  next
    case False
    then have ub: "spec_untilBlank (c # cs) = c # spec_untilBlank cs" by simp
    from False have "cs \<noteq> []" by simp
    from Cons.IH [OF this] obtain post where
      cs: "cs = spec_untilBlank cs @ post" and
      post: "post = [] \<or> prefix [10, 10] post" and
      inner: "\<forall>k. 0 < k \<and> k < length (spec_untilBlank cs) \<longrightarrow> \<not> prefix [10, 10] (drop k cs)"
      by blast
    have "\<forall>k. 0 < k \<and> k < length (spec_untilBlank (c # cs)) \<longrightarrow>
            \<not> prefix [10, 10] (drop k (c # cs))"
    proof (intro allI impI)
      fix k
      assume k: "0 < k \<and> k < length (spec_untilBlank (c # cs))"
      then obtain j where j: "k = Suc j" by (cases k) auto
      show "\<not> prefix [10, 10] (drop k (c # cs))"
      proof (cases j)
        case 0
        with j False show ?thesis by simp
      next
        case (Suc i)
        with j k ub inner show ?thesis by simp
      qed
    qed
    moreover from cs ub have "c # cs = spec_untilBlank (c # cs) @ post" by simp
    ultimately show ?thesis using ub post by auto
  qed
qed

lemma searchSection_shape:
  assumes "spec_searchSection t \<noteq> []"
  shows "\<exists>pre opt ws post.
           t = pre @ js ''Searches I ran'' @ opt @ ws @ spec_searchSection t @ post \<and>
           (\<forall>p < length pre. \<not> prefix (js ''Searches I ran'') (drop p t)) \<and>
           (opt = [] \<or> opt = [58] \<or> opt = [45]) \<and>
           (opt = [] \<longrightarrow> hd (ws @ spec_searchSection t) \<noteq> 58 \<and>
                          hd (ws @ spec_searchSection t) \<noteq> 45) \<and>
           (\<forall>c \<in> set ws. isSpace c) \<and>
           \<not> isSpace (hd (spec_searchSection t)) \<and>
           (post = [] \<or> prefix [10, 10] post) \<and>
           (\<forall>k. 0 < k \<and> k < length (spec_searchSection t) \<longrightarrow>
                \<not> prefix [10, 10] (drop k (spec_searchSection t @ post)))"
proof -
  let ?g = "spec_searchSection t"
  from assms obtain r where r: "spec_afterHeader (js ''Searches I ran'') t = Some r"
    by (auto simp: spec_searchSection_def split: option.splits)
  let ?r1 = "spec_skipMark r"
  let ?ws = "takeWhile isSpace ?r1" and ?r2 = "dropWhile isSpace ?r1"
  have g: "?g = spec_untilBlank ?r2" using r by (simp add: spec_searchSection_def)
  with assms have r2: "?r2 \<noteq> []" by (metis spec_untilBlank.simps(1))
  from afterHeader_first [OF r] obtain pre where
    t: "t = pre @ js ''Searches I ran'' @ r" and
    first: "\<forall>p < length pre. \<not> prefix (js ''Searches I ran'') (drop p t)"
    by blast
  obtain opt where
    opt: "r = opt @ ?r1" "opt = [] \<or> opt = [58] \<or> opt = [45]"
      "opt = [] \<longrightarrow> r = [] \<or> (hd r \<noteq> 58 \<and> hd r \<noteq> 45)"
  proof (cases r)
    case Nil
    then have "r = [] @ ?r1" by (simp add: spec_skipMark_def)
    with Nil that show ?thesis by blast
  next
    case (Cons c cs)
    show ?thesis
    proof (cases "c = 58 \<or> c = 45")
      case True
      with Cons have "r = [c] @ ?r1" by (simp add: spec_skipMark_def)
      with True that show ?thesis by blast
    next
      case False
      with Cons have "r = [] @ ?r1" "hd r \<noteq> 58 \<and> hd r \<noteq> 45"
        by (simp_all add: spec_skipMark_def)
      with that show ?thesis by blast
    qed
  qed
  have r1: "?r1 = ?ws @ ?r2" by simp
  have ws: "\<forall>c \<in> set ?ws. isSpace c" by (auto dest: set_takeWhileD)
  from r2 have nsp: "\<not> isSpace (hd ?r2)" by (rule hd_dropWhile)
  from untilBlank_shape [OF r2] g obtain post where
    sh: "?r2 = ?g @ post" "hd ?g = hd ?r2" "post = [] \<or> prefix [10, 10] post"
      "\<forall>k. 0 < k \<and> k < length ?g \<longrightarrow> \<not> prefix [10, 10] (drop k ?r2)"
    by auto
  have whole: "t = pre @ js ''Searches I ran'' @ opt @ ?ws @ ?g @ post"
    using t opt(1) r1 sh(1) by (metis append.assoc)
  have head: "opt = [] \<longrightarrow> hd (?ws @ ?g) \<noteq> 58 \<and> hd (?ws @ ?g) \<noteq> 45"
  proof
    assume e: "opt = []"
    with opt(1) have "r = ?r1" by simp
    with r1 sh(1) have rr: "r = (?ws @ ?g) @ post" by (metis append.assoc)
    from assms have "?ws @ ?g \<noteq> []" by simp
    with rr have "hd r = hd (?ws @ ?g)" and "r \<noteq> []" by (metis hd_append2, auto)
    with opt(3) e show "hd (?ws @ ?g) \<noteq> 58 \<and> hd (?ws @ ?g) \<noteq> 45" by auto
  qed
  from nsp sh(2) have nsg: "\<not> isSpace (hd ?g)" by simp
  from sh(1) sh(4) have inner:
    "\<forall>k. 0 < k \<and> k < length ?g \<longrightarrow> \<not> prefix [10, 10] (drop k (?g @ post))"
    by simp
  from whole first opt(2) head ws nsg sh(3) inner show ?thesis by blast
qed

lemma new_entry_line:
  assumes "e \<in> set (searchLog (processText now t st))" and "e \<notin> set (searchLog st)"
  shows "\<exists>line \<in> set (splitWhere (\<lambda>c. c = 10) (spec_searchSection t)).
           isBulletLine line \<and>
           SearchLogEntry.query e = hd (lineParts (trim (stripBullet line))) \<and>
           SearchLogEntry.reason e =
             (if 2 \<le> length (lineParts (trim (stripBullet line)))
              then join (js '' - '') (drop 1 (lineParts (trim (stripBullet line))))
              else js ''No reason provided'')"
proof -
  have log: "searchLog (processText now t st) =
      foldl (\<lambda>prev line. logLine now line prev) (searchLog st)
        (bulletLines (spec_searchSection t))"
    by (simp add: processText_def searchesStep_section searchLog_before_searches)
  from assms(1) have
    "e \<in> set (foldl (\<lambda>prev line. logLine now line prev) (searchLog st)
        (bulletLines (spec_searchSection t)))"
    by (simp only: log)
  from foldl_logLine_new [OF this assms(2)] obtain l where
    l: "l \<in> set (bulletLines (spec_searchSection t))" and
    q: "SearchLogEntry.query e = hd (lineParts l)" and
    r: "SearchLogEntry.reason e =
         (if 2 \<le> length (lineParts l) then join (js '' - '') (drop 1 (lineParts l))
          else js ''No reason provided'')"
    by blast
  from bulletLines_origin [OF l] obtain line where
    "line \<in> set (splitWhere (\<lambda>c. c = 10) (spec_searchSection t))" "isBulletLine line"
    "l = trim (stripBullet line)"
    by blast
  with q r show ?thesis by blast
qed

text \<open>
  C5, as stated, fails. A text with none of the markers the claim names (neither
  "Searches I ran" nor "Random Tangents" nor, in any letter case, "got distracted",
  "side quest" or "tangent") still raises the side-quest counter, through the section
  header "Probably irrelevant but interesting" that the client scans for. The header
  "Random Tangents" on the other hand is no marker: a text that has it, and nothing else,
  changes neither counter.
\<close>

theorem unlisted_header_changes_counter:
  "\<not> js_includes (js ''Probably irrelevant but interesting:\<newline>- octopuses'')
       (js ''Searches I ran'') \<and>
   \<not> js_includes (js ''Probably irrelevant but interesting:\<newline>- octopuses'')
       (js ''Random Tangents'') \<and>
   \<not> js_includes (toLowerCase (js ''Probably irrelevant but interesting:\<newline>- octopuses''))
       (js ''got distracted'') \<and>
   \<not> js_includes (toLowerCase (js ''Probably irrelevant but interesting:\<newline>- octopuses''))
       (js ''side quest'') \<and>
   \<not> js_includes (toLowerCase (js ''Probably irrelevant but interesting:\<newline>- octopuses''))
       (js ''tangent'') \<and>
   processText 0 (js ''Probably irrelevant but interesting:\<newline>- octopuses'')
       \<lparr>sideQuestCount = 0, searchLog = []\<rparr> = \<lparr>sideQuestCount = 1, searchLog = []\<rparr> \<and>
   processText 0 (js ''# Random Tangents\<newline>\<newline>Wow!'')
       \<lparr>sideQuestCount = 0, searchLog = []\<rparr> = \<lparr>sideQuestCount = 0, searchLog = []\<rparr>"
  by (simp add: processText_def sideQuestStep_def mentionStep_def mentionGuard_def
      searchesStep_def matchAt_def afterOptional_def lookahead_def isSpace_def bulletLines_def
      isBulletLine_def stripBullet_def trim_def startsWith_def toLowerCase_def js_def)

text \<open>
  C5, amended. The markers are the ones the code tests with a case-sensitive
  \<^verbatim>\<open>includes\<close>: "Probably irrelevant but interesting", "got distracted", "side quest",
  "tangent" and "Searches I ran" ("Random Tangents" is not among them). A text part with
  none of the five leaves the side-quest counter and the search log as they are.

  The search log after a text part is the log before it, extended (through the duplicate
  tests) by the bulleted lines of the section of searches, in their order, and by nothing
  else. The section of searches is pinned down: it starts after the first occurrence of
  "Searches I ran", one colon or dash if there is one, and all white space that follows,
  and it ends in front of the first blank line after its first character, or with the
  text. A bulleted line is a line of that section that, trimmed, starts with a dash or a
  bullet; the query of its entry is the first piece of the line and the reason the
  remaining pieces, or "No reason provided" for a single piece. As the section starts on
  the line of the header, its first line can be the rest of a sentence: the prose
  "The Searches I ran - mostly on Wikipedia - were quick" gives an entry.
\<close>

theorem text_markers_drive_counters:
  "(\<not> js_includes t (js ''Probably irrelevant but interesting'') \<and>
    \<not> js_includes t (js ''got distracted'') \<and>
    \<not> js_includes t (js ''side quest'') \<and>
    \<not> js_includes t (js ''tangent'') \<and>
    \<not> js_includes t (js ''Searches I ran'') \<longrightarrow> processText now t st = st) \<and>
   searchLog (processText now u st) =
     foldl (\<lambda>prev line. logLine now line prev) (searchLog st)
       (bulletLines (spec_searchSection u)) \<and>
   (e \<in> set (searchLog (processText now u st)) \<and> e \<notin> set (searchLog st) \<longrightarrow>
      (\<exists>line \<in> set (splitWhere (\<lambda>c. c = 10) (spec_searchSection u)).
         isBulletLine line \<and>
         SearchLogEntry.query e = hd (lineParts (trim (stripBullet line))) \<and>
         SearchLogEntry.reason e =
           (if 2 \<le> length (lineParts (trim (stripBullet line)))
            then join (js '' - '') (drop 1 (lineParts (trim (stripBullet line))))
            else js ''No reason provided''))) \<and>
   (spec_searchSection u \<noteq> [] \<longrightarrow>
      (\<exists>pre opt ws post.
         u = pre @ js ''Searches I ran'' @ opt @ ws @ spec_searchSection u @ post \<and>
         (\<forall>p < length pre. \<not> prefix (js ''Searches I ran'') (drop p u)) \<and>
         (opt = [] \<or> opt = [58] \<or> opt = [45]) \<and>
         (opt = [] \<longrightarrow> hd (ws @ spec_searchSection u) \<noteq> 58 \<and>
                        hd (ws @ spec_searchSection u) \<noteq> 45) \<and>
         (\<forall>c \<in> set ws. isSpace c) \<and>
         \<not> isSpace (hd (spec_searchSection u)) \<and>
         (post = [] \<or> prefix [10, 10] post) \<and>
         (\<forall>k. 0 < k \<and> k < length (spec_searchSection u) \<longrightarrow>
              \<not> prefix [10, 10] (drop k (spec_searchSection u @ post)))))"
proof -
  have "searchLog (processText now u st) =
      foldl (\<lambda>prev line. logLine now line prev) (searchLog st)
        (bulletLines (spec_searchSection u))"
    by (simp add: processText_def searchesStep_section searchLog_before_searches)
  then show ?thesis
    using no_markers_unchanged [of t now st] new_entry_line [of e now u st]
      searchSection_shape [of u]
    by blast
qed

theorem text_markers_drive_counters_witness:
  "processText 7 (js ''Beirut is the capital of Lebanon.'') \<lparr>sideQuestCount = 0, searchLog = []\<rparr>
     = \<lparr>sideQuestCount = 0, searchLog = []\<rparr> \<and>
   spec_searchSection (js ''The Searches I ran - mostly on Wikipedia - were quick'') =
     js ''- mostly on Wikipedia - were quick'' \<and>
   searchLog (processText 7 (js ''The Searches I ran - mostly on Wikipedia - were quick'')
       \<lparr>sideQuestCount = 0, searchLog = []\<rparr>) =
     [\<lparr>SearchLogEntry.query = js ''mostly on Wikipedia'', reason = js ''were quick'',
       timestamp = 7\<rparr>] \<and>
   (\<exists>line \<in> set (splitWhere (\<lambda>c. c = 10)
        (spec_searchSection (js ''The Searches I ran - mostly on Wikipedia - were quick''))).
      isBulletLine line \<and> js ''mostly on Wikipedia'' = hd (lineParts (trim (stripBullet line)))) \<and>
   (\<exists>pre opt ws post.
      js ''The Searches I ran - mostly on Wikipedia - were quick'' =
        pre @ js ''Searches I ran'' @ opt @ ws @ js ''- mostly on Wikipedia - were quick'' @ post)"
proof -
  let ?st = "\<lparr>sideQuestCount = 0, searchLog = []\<rparr>"
  let ?u = "js ''The Searches I ran - mostly on Wikipedia - were quick''"
  let ?e = "\<lparr>SearchLogEntry.query = js ''mostly on Wikipedia'', reason = js ''were quick'',
     timestamp = 7\<rparr>"
  have none: "\<not> js_includes (js ''Beirut is the capital of Lebanon.'')
        (js ''Probably irrelevant but interesting'') \<and>
      \<not> js_includes (js ''Beirut is the capital of Lebanon.'') (js ''got distracted'') \<and>
      \<not> js_includes (js ''Beirut is the capital of Lebanon.'') (js ''side quest'') \<and>
      \<not> js_includes (js ''Beirut is the capital of Lebanon.'') (js ''tangent'') \<and>
      \<not> js_includes (js ''Beirut is the capital of Lebanon.'') (js ''Searches I ran'')"
    by (simp add: js_def)
  have sec: "spec_searchSection ?u = js ''- mostly on Wikipedia - were quick''"
    by (simp add: spec_searchSection_def spec_skipMark_def isSpace_def js_def)
  have lines: "bulletLines (js ''- mostly on Wikipedia - were quick'') =
      [js ''mostly on Wikipedia - were quick'']"
    by (simp add: bulletLines_def isBulletLine_def stripBullet_def trim_def startsWith_def
        isSpace_def js_def)
  have entry: "logLine 7 (js ''mostly on Wikipedia - were quick'') [] = [?e]"
    by (simp add: logLine_def lineParts_def addSearchLog_def trim_def isSpace_def js_def)
  note inst = text_markers_drive_counters
    [of "js ''Beirut is the capital of Lebanon.''" 7 ?st ?u ?e]
  note unchanged = inst [THEN conjunct1]
  note extended = inst [THEN conjunct2, THEN conjunct1]
  note origin = inst [THEN conjunct2, THEN conjunct2, THEN conjunct1]
  note shape = inst [THEN conjunct2, THEN conjunct2, THEN conjunct2]
  from extended sec lines entry have log: "searchLog (processText 7 ?u ?st) = [?e]"
    by simp
  have "js ''- mostly on Wikipedia - were quick'' \<noteq> []" by (simp add: js_def)
  then have nonempty: "spec_searchSection ?u \<noteq> []" by (simp add: sec)
  from unchanged none have a: "processText 7 (js ''Beirut is the capital of Lebanon.'') ?st = ?st"
    by (rule mp)
  have new: "?e \<in> set (searchLog (processText 7 ?u ?st)) \<and> ?e \<notin> set (searchLog ?st)"
    by (simp add: log)
  from origin new have
    "\<exists>line \<in> set (splitWhere (\<lambda>c. c = 10) (spec_searchSection ?u)).
      isBulletLine line \<and>
      SearchLogEntry.query ?e = hd (lineParts (trim (stripBullet line))) \<and>
      SearchLogEntry.reason ?e =
        (if 2 \<le> length (lineParts (trim (stripBullet line)))
         then join (js '' - '') (drop 1 (lineParts (trim (stripBullet line))))
         else js ''No reason provided'')"
    by (rule mp)
  then have b:
    "\<exists>line \<in> set (splitWhere (\<lambda>c. c = 10) (spec_searchSection ?u)).
      isBulletLine line \<and> js ''mostly on Wikipedia'' = hd (lineParts (trim (stripBullet line)))"
    by auto
  from shape nonempty have
    "\<exists>pre opt ws post.
       ?u = pre @ js ''Searches I ran'' @ opt @ ws @ spec_searchSection ?u @ post \<and>
       (\<forall>p < length pre. \<not> prefix (js ''Searches I ran'') (drop p ?u)) \<and>
       (opt = [] \<or> opt = [58] \<or> opt = [45]) \<and>
       (opt = [] \<longrightarrow> hd (ws @ spec_searchSection ?u) \<noteq> 58 \<and>
                      hd (ws @ spec_searchSection ?u) \<noteq> 45) \<and>
       (\<forall>c \<in> set ws. isSpace c) \<and>
       \<not> isSpace (hd (spec_searchSection ?u)) \<and>
       (post = [] \<or> prefix [10, 10] post) \<and>
       (\<forall>k. 0 < k \<and> k < length (spec_searchSection ?u) \<longrightarrow>
            \<not> prefix [10, 10] (drop k (spec_searchSection ?u @ post)))"
    by (rule mp)
  then have c:
    "\<exists>pre opt ws post. ?u = pre @ js ''Searches I ran'' @ opt @ ws @ spec_searchSection ?u @ post"
    by blast
  from c have c':
    "\<exists>pre opt ws post. ?u =
       pre @ js ''Searches I ran'' @ opt @ ws @ js ''- mostly on Wikipedia - were quick'' @ post"
    unfolding sec .
  from a sec log b c' show ?thesis by blast
qed

section \<open>Properties of the search log\<close>

text \<open>
  The updater for a query with a reason keeps the log free of duplicates: it is the one
  used for tool calls and for text lines of the form "query - reason".
\<close>

lemma addSearchLog_distinct:
  assumes "distinct (map (\<lambda>e. (SearchLogEntry.query e, SearchLogEntry.reason e)) prev)"
  shows "distinct (map (\<lambda>e. (SearchLogEntry.query e, SearchLogEntry.reason e))
           (addSearchLog now q r prev))"
  using assms by (auto simp: addSearchLog_def list_ex_iff)

text \<open>
  C9 does not hold of the code. The updater for a line without a reason looks for an entry
  with the same query and an empty reason, and stores the reason "No reason provided", so
  it never finds the entries it stored itself. For one assistant message whose text is the
  header "Searches I ran:" and the line "- climate policy", the first run of the effect
  adds the entry, and the next run (the effect runs again on every change of the messages)
  adds it once more: the log holds two entries with the same query and the same reason.
\<close>

theorem searchLog_duplicate_without_reason:
  "map (\<lambda>e. (SearchLogEntry.query e, SearchLogEntry.reason e))
     (searchLog
        (parseEffect 2
           [\<lparr>msg_id = js ''m1'', role = js ''assistant'',
             parts = [textPart (js ''Searches I ran:\<newline>- climate policy'')]\<rparr>]
           (parseEffect 1
              [\<lparr>msg_id = js ''m1'', role = js ''assistant'',
                parts = [textPart (js ''Searches I ran:\<newline>- climate policy'')]\<rparr>]
              \<lparr>sideQuestCount = 0, searchLog = []\<rparr>)))
   = [(js ''climate policy'', js ''No reason provided''),
      (js ''climate policy'', js ''No reason provided'')]"
  by (simp add: parseEffect_def processMessage_def processPart_def processText_def
      textPart_def blankPart_def searchesStep_def mentionStep_def mentionGuard_def
      sideQuestStep_def matchAt_def afterOptional_def isSpace_def bulletLines_def
      isBulletLine_def stripBullet_def lookahead_def trim_def startsWith_def logLine_def
      lineParts_def addQueryOnly_def addSearchLog_def js_def)

section \<open>Properties of the streamed tool-call lifecycle\<close>

lemma toolStateOf_Cons_eq:
  "toolStateOf i xs = toolStateOf i ys \<Longrightarrow> toolStateOf i (p # xs) = toolStateOf i (p # ys)"
  by (cases p) auto

lemma toolStateOf_appendText: "toolStateOf i (appendText d ps) = toolStateOf i ps"
  by (induction d ps rule: appendText.induct) (auto intro: toolStateOf_Cons_eq)

lemma toolStateOf_snoc:
  "toolStateOf i (ps @ [StreamToolCall j n s]) =
     (case toolStateOf i ps of Some s' \<Rightarrow> Some s' | None \<Rightarrow> if i = j then Some s else None)"
  by (induction i ps rule: toolStateOf.induct) auto

lemma toolStateOf_setToolState:
  "toolStateOf i (setToolState j s ps) =
     (if i = j \<and> toolStateOf i ps \<noteq> None then Some s else toolStateOf i ps)"
  by (induction j s ps rule: setToolState.induct) auto

lemma lifecycle_append: "lifecycle (xs @ ys) \<Longrightarrow> lifecycle xs"
  by (auto simp: lifecycle_def sorted_wrt_append)

lemma causalOrder_all: "causalOrder evs \<longleftrightarrow> (\<forall>i. lifecycle (eventsOf i evs))"
proof
  assume c: "causalOrder evs"
  show "\<forall>i. lifecycle (eventsOf i evs)"
  proof
    fix i
    show "lifecycle (eventsOf i evs)"
    proof (cases "eventsOf i evs = []")
      case True
      then show ?thesis by (simp add: lifecycle_def)
    next
      case False
      then obtain e where "e \<in> set evs" "callOf e = Some i"
        by (auto simp: eventsOf_def filter_empty_conv)
      then have "i \<in> set (List.map_filter callOf evs)"
        by (force simp: map_filter_def)
      with c show ?thesis by (simp add: causalOrder_def list_all_iff)
    qed
  qed
next
  assume "\<forall>i. lifecycle (eventsOf i evs)"
  then show "causalOrder evs" by (simp add: causalOrder_def list_all_iff)
qed

lemma causalOrder_append: "causalOrder (evs @ later) \<Longrightarrow> causalOrder evs"
  unfolding causalOrder_all using lifecycle_append by (auto simp: eventsOf_def)

lemma rank_stateAfter: "rank (stateAfter e) = stage e"
  by (cases e) auto

lemma state_by_last_event:
  "causalOrder evs \<Longrightarrow>
     toolStateOf i (replay evs) =
       (if eventsOf i evs = [] then None else Some (stateAfter (last (eventsOf i evs))))"
proof (induction evs rule: rev_induct)
  case Nil
  then show ?case by (simp add: replay_def eventsOf_def)
next
  case (snoc e evs)
  from snoc.prems have co: "causalOrder evs" by (rule causalOrder_append)
  note IH = snoc.IH [OF co]
  have rp: "replay (evs @ [e]) = applyEvent (replay evs) e" by (simp add: replay_def)
  show ?case
  proof (cases "callOf e = Some i")
    case False
    then have ev: "eventsOf i (evs @ [e]) = eventsOf i evs" by (simp add: eventsOf_def)
    from False have "toolStateOf i (applyEvent (replay evs) e) = toolStateOf i (replay evs)"
      by (cases e)
        (auto simp: toolStateOf_appendText toolStateOf_snoc toolStateOf_setToolState
          split: option.splits)
    with rp ev IH show ?thesis by simp
  next
    case True
    then have ev: "eventsOf i (evs @ [e]) = eventsOf i evs @ [e]" by (simp add: eventsOf_def)
    from snoc.prems have lc: "lifecycle (eventsOf i evs @ [e])"
      unfolding causalOrder_all ev [symmetric] by blast
    show ?thesis
    proof (cases "eventsOf i evs = []")
      case empty: True
      with lc have "stage e = 0" by (simp add: lifecycle_def)
      with True obtain n where e: "e = ToolCallStart i n" by (cases e) auto
      from empty IH have "toolStateOf i (replay evs) = None" by simp
      with e rp ev show ?thesis by (simp add: toolStateOf_snoc)
    next
      case nonempty: False
      then have "last (eventsOf i evs) \<in> set (eventsOf i evs)" by simp
      with lc have "stage (last (eventsOf i evs)) < stage e"
        by (auto simp: lifecycle_def sorted_wrt_append)
      then have "0 < stage e" by simp
      moreover from nonempty IH have "toolStateOf i (replay evs) \<noteq> None" by simp
      ultimately have "toolStateOf i (applyEvent (replay evs) e) = Some (stateAfter e)"
        using True by (cases e) (auto simp: toolStateOf_setToolState)
      with rp ev show ?thesis by simp
    qed
  qed
qed

text \<open>
  Whatever stream keeps the order of the lifecycle, the state seen for a tool call after
  more events is the same or further along the path.
\<close>

lemma advance_under_order:
  assumes "causalOrder (evs @ later)"
    and "toolStateOf i (replay evs) = Some s"
  shows "\<exists>s'. toolStateOf i (replay (evs @ later)) = Some s' \<and>
           (s' = s \<or> rank s < rank s') \<and>
           (s = OutputAvailable \<or> s = OutputError \<longrightarrow> s' = s)"
proof -
  let ?es = "eventsOf i evs" and ?ms = "eventsOf i later"
  from assms(1) have co: "causalOrder evs" by (rule causalOrder_append)
  from state_by_last_event [OF co, of i] assms(2)
  have es: "?es \<noteq> []" and s: "s = stateAfter (last ?es)"
    by (auto split: if_splits)
  have ev: "eventsOf i (evs @ later) = ?es @ ?ms" by (simp add: eventsOf_def)
  from state_by_last_event [OF assms(1), of i] es ev
  have after: "toolStateOf i (replay (evs @ later)) = Some (stateAfter (last (?es @ ?ms)))"
    by simp
  show ?thesis
  proof (cases "?ms = []")
    case True
    with after s show ?thesis by simp
  next
    case False
    from assms(1) have "lifecycle (?es @ ?ms)"
      unfolding causalOrder_all ev [symmetric] by blast
    moreover from es have "last ?es \<in> set ?es" by simp
    moreover from False have "last ?ms \<in> set ?ms" by simp
    ultimately have "stage (last ?es) < stage (last ?ms)"
      by (auto simp: lifecycle_def sorted_wrt_append)
    then have lt: "rank s < rank (stateAfter (last (?es @ ?ms)))"
      using s False by (simp add: rank_stateAfter)
    have "rank (stateAfter (last (?es @ ?ms))) \<le> 2"
      by (cases "stateAfter (last (?es @ ?ms))") auto
    with lt have "s \<noteq> OutputAvailable \<and> s \<noteq> OutputError" by auto
    with after lt show ?thesis by simp
  qed
qed

text \<open>Every stream of a run keeps the order of the lifecycle.\<close>

lemma eventsOf_append: "eventsOf i (xs @ ys) = eventsOf i xs @ eventsOf i ys"
  by (simp add: eventsOf_def)

lemma eventsOf_Nil: "eventsOf i [] = []"
  by (simp add: eventsOf_def)

lemma eventsOf_TextDelta: "eventsOf i (TextDelta t # evs) = eventsOf i evs"
  by (simp add: eventsOf_def)

lemma eventsOf_callEvents:
  "eventsOf i (callEvents n cr) = (if i = n then callEvents n cr else [])"
proof -
  obtain name input res where "cr = ((name, input), res)" by (metis surj_pair)
  then show ?thesis by (auto simp: eventsOf_def split: sum.splits)
qed

lemma lifecycle_callEvents: "lifecycle (callEvents n cr)"
proof -
  obtain name input res where "cr = ((name, input), res)" by (metis surj_pair)
  then show ?thesis by (auto simp: lifecycle_def split: sum.splits)
qed

lemma eventsOf_callsEvents_below: "i < n \<Longrightarrow> eventsOf i (callsEvents n crs) = []"
  by (induction crs arbitrary: n) (auto simp: eventsOf_Nil eventsOf_append eventsOf_callEvents)

lemma eventsOf_callsEvents_above:
  "n + length crs \<le> i \<Longrightarrow> eventsOf i (callsEvents n crs) = []"
  by (induction crs arbitrary: n) (auto simp: eventsOf_Nil eventsOf_append eventsOf_callEvents)

lemma lifecycle_callsEvents: "lifecycle (eventsOf i (callsEvents n crs))"
proof (induction crs arbitrary: n)
  case Nil
  then show ?case by (simp add: eventsOf_def lifecycle_def)
next
  case (Cons cr crs)
  show ?case
  proof (cases "i = n")
    case True
    then have "eventsOf i (callsEvents (Suc n) crs) = []"
      by (simp add: eventsOf_callsEvents_below)
    with True show ?thesis
      by (simp add: eventsOf_append eventsOf_callEvents lifecycle_callEvents)
  next
    case False
    with Cons.IH [of "Suc n"] show ?thesis
      by (simp add: eventsOf_append eventsOf_callEvents)
  qed
qed

lemma streamLoop_ordered:
  "(\<forall>i < nextId.
      eventsOf i (streamLoop askModel runTool addResults aborted remaining count nextId history)
        = []) \<and>
   (\<forall>i. lifecycle
      (eventsOf i
         (streamLoop askModel runTool addResults aborted remaining count nextId history)))"
proof (induction askModel runTool addResults aborted remaining count nextId history
    rule: streamLoop.induct)
  case (1 askModel runTool addResults aborted remaining count nextId history)
  let ?S = "streamLoop askModel runTool addResults aborted remaining count nextId history"
  have empty: "lifecycle []" by (simp add: lifecycle_def)
  show ?case
  proof (cases "aborted count")
    case True
    then have "?S = []" by (subst streamLoop.simps) simp
    then show ?thesis by (simp add: eventsOf_def empty)
  next
    case False
    show ?thesis
    proof (cases "askModel history")
      case (Inl e)
      with False have "?S = []" by (subst streamLoop.simps) simp
      then show ?thesis by (simp add: eventsOf_def empty)
    next
      case (Inr r)
      obtain t calls where r: "r = (t, calls)" by (cases r)
      let ?results = "map (\<lambda>c. (c, runTool c)) calls"
      let ?step = "TextDelta t # callsEvents nextId ?results"
      have step: "\<And>i. eventsOf i ?step = eventsOf i (callsEvents nextId ?results)"
        by (rule eventsOf_TextDelta)
      have app: "\<And>i R. eventsOf i (?step @ R) =
          eventsOf i (callsEvents nextId ?results) @ eventsOf i R"
        by (simp only: eventsOf_append step)
      show ?thesis
      proof (cases "calls = [] \<or> remaining - 1 = 0")
        case True
        with False Inr r have "?S = ?step" by (subst streamLoop.simps) simp
        then show ?thesis
          by (simp add: step eventsOf_callsEvents_below lifecycle_callsEvents)
      next
        case more: False
        let ?R = "streamLoop askModel runTool addResults aborted (remaining - 1) (count + 1)
                    (nextId + length calls) (addResults history t ?results)"
        from False Inr r more have S: "?S = ?step @ ?R"
          by (subst streamLoop.simps) simp
        from "1.IH" [OF False Inr r [symmetric] more]
        have below: "\<forall>i < nextId + length calls. eventsOf i ?R = []"
          and lc: "\<forall>i. lifecycle (eventsOf i ?R)"
          by blast+
        have "\<forall>i < nextId. eventsOf i ?S = []"
          using below by (simp add: S app eventsOf_callsEvents_below del: append_Cons)
        moreover have "\<forall>i. lifecycle (eventsOf i ?S)"
        proof
          fix i
          show "lifecycle (eventsOf i ?S)"
          proof (cases "i < nextId + length calls")
            case True
            with below have "eventsOf i ?R = []" by simp
            then show ?thesis
              by (simp add: S app lifecycle_callsEvents del: append_Cons)
          next
            case False
            then have "eventsOf i (callsEvents nextId ?results) = []"
              by (simp add: eventsOf_callsEvents_above)
            with lc show ?thesis by (simp add: S app del: append_Cons)
          qed
        qed
        ultimately show ?thesis by blast
      qed
    qed
  qed
qed

lemma runStream_causalOrder:
  "causalOrder (runStream a askModel runTool addResults aborted history)"
  unfolding causalOrder_all runStream_def by (rule conjunct2 [OF streamLoop_ordered])

text \<open>
  C2. A tool-call part only advances along the path \<^verbatim>\<open>input-streaming\<close>,
  \<^verbatim>\<open>input-available\<close>, then \<^verbatim>\<open>output-available\<close> or \<^verbatim>\<open>output-error\<close>. Take the stream
  of any run of an agent (whatever the model answers, whatever the tools return and
  whenever the run is cancelled), and a client that has received its first \<open>m\<close> events and
  sees tool call \<open>i\<close> in state \<open>s\<close>. Then after the first \<open>n\<close> events, for any \<open>n\<close> from
  \<open>m\<close> on, it sees the part in a state \<open>s'\<close> that is \<open>s\<close> itself or lies further along the
  path; and when \<open>s\<close> is \<^verbatim>\<open>output-available\<close> or \<^verbatim>\<open>output-error\<close> the part stays in \<open>s\<close>.
  What a client sees of a stream that is cut short, by a cancellation or an error in the
  middle of a step, is such a prefix of events too. The order of the events is not assumed:
  it is proved of every stream of a run.
\<close>

theorem tool_state_only_advances:
  assumes "m \<le> n"
    and "toolStateOf i
           (replay (take m (runStream a askModel runTool addResults aborted history))) = Some s"
  shows "\<exists>s'. toolStateOf i
                (replay (take n (runStream a askModel runTool addResults aborted history)))
                = Some s' \<and>
              (s' = s \<or> rank s < rank s') \<and>
              (s = OutputAvailable \<or> s = OutputError \<longrightarrow> s' = s)"
proof -
  let ?S = "runStream a askModel runTool addResults aborted history"
  have "causalOrder (take n ?S @ drop n ?S)"
    using runStream_causalOrder [of a askModel runTool addResults aborted history] by simp
  then have co: "causalOrder (take n ?S)" by (rule causalOrder_append)
  from assms(1) have "take m (take n ?S) = take m ?S" by (simp add: min_def)
  with append_take_drop_id [of m "take n ?S"]
  have split: "take n ?S = take m ?S @ drop m (take n ?S)" by simp
  from co have "causalOrder (take m ?S @ drop m (take n ?S))"
    by (simp only: split [symmetric])
  from advance_under_order [OF this assms(2)] show ?thesis
    by (simp only: split [symmetric])
qed

text \<open>
  A run of the chat agent that searches once and then answers: the search is seen with its
  input available after three events and with its output available after four.
\<close>

theorem tool_state_only_advances_witness:
  "runStream createChatAgent
     (\<lambda>h :: nat. if h = 0
        then Inr (js ''Looking'',
               [(js ''tavilySearch'', JObj [(js ''query'', JStr (js ''capital of Lebanon''))])])
        else Inr (js ''Beirut'', []))
     (\<lambda>c. Inr (JArr [])) (\<lambda>h t rs. h + 1) (\<lambda>k. False) 0
   = [TextDelta (js ''Looking''), ToolCallStart 0 (js ''tavilySearch''),
      ToolCallArgs 0 (JObj [(js ''query'', JStr (js ''capital of Lebanon''))]),
      ToolCallResult 0 (JArr []), TextDelta (js ''Beirut'')] \<and>
   (3 :: nat) \<le> 4 \<and>
   toolStateOf 0
     (replay (take 3
        [TextDelta (js ''Looking''), ToolCallStart 0 (js ''tavilySearch''),
         ToolCallArgs 0 (JObj [(js ''query'', JStr (js ''capital of Lebanon''))]),
         ToolCallResult 0 (JArr []), TextDelta (js ''Beirut'')])) = Some InputAvailable \<and>
   toolStateOf 0
     (replay (take 4
        [TextDelta (js ''Looking''), ToolCallStart 0 (js ''tavilySearch''),
         ToolCallArgs 0 (JObj [(js ''query'', JStr (js ''capital of Lebanon''))]),
         ToolCallResult 0 (JArr []), TextDelta (js ''Beirut'')])) = Some OutputAvailable \<and>
   (\<exists>s'. toolStateOf 0
      (replay (take 4
        [TextDelta (js ''Looking''), ToolCallStart 0 (js ''tavilySearch''),
         ToolCallArgs 0 (JObj [(js ''query'', JStr (js ''capital of Lebanon''))]),
         ToolCallResult 0 (JArr []), TextDelta (js ''Beirut'')])) = Some s' \<and>
      (s' = InputAvailable \<or> rank InputAvailable < rank s'))"
proof -
  let ?askModel = "\<lambda>h :: nat. if h = 0
        then Inr (js ''Looking'',
               [(js ''tavilySearch'', JObj [(js ''query'', JStr (js ''capital of Lebanon''))])])
        else (Inr (js ''Beirut'', []) :: Error + jsstr \<times> (jsstr \<times> json) list)"
  let ?S = "[TextDelta (js ''Looking''), ToolCallStart 0 (js ''tavilySearch''),
      ToolCallArgs 0 (JObj [(js ''query'', JStr (js ''capital of Lebanon''))]),
      ToolCallResult 0 (JArr []), TextDelta (js ''Beirut'')]"
  let ?run = "runStream createChatAgent ?askModel (\<lambda>c. Inr (JArr [])) (\<lambda>h t rs. h + 1)
      (\<lambda>k. False) (0 :: nat)"
  have run: "?run = ?S"
    by (simp add: runStream_def createChatAgent_def stepCountIs_def streamLoop.simps)
  have le: "(3 :: nat) \<le> 4" by simp
  have s: "toolStateOf 0 (replay (take 3 ?S)) = Some InputAvailable"
    by (simp add: replay_def)
  have s': "toolStateOf 0 (replay (take 4 ?S)) = Some OutputAvailable"
    by (simp add: replay_def)
  from s have "toolStateOf 0 (replay (take 3 ?run)) = Some InputAvailable"
    by (simp only: run)
  from tool_state_only_advances [OF le this]
  have "\<exists>s'. toolStateOf 0 (replay (take 4 ?run)) = Some s' \<and>
          (s' = InputAvailable \<or> rank InputAvailable < rank s')"
    by blast
  then have adv: "\<exists>s'. toolStateOf 0 (replay (take 4 ?S)) = Some s' \<and>
          (s' = InputAvailable \<or> rank InputAvailable < rank s')"
    by (simp only: run)
  from run le s s' adv show ?thesis by blast
qed

end
